theory Spec2Isabelle
  imports Complex_Main "HOL-Library.Word" "HOL-Library.Monad_Syntax"
begin

unbundle bit_operations_syntax

section \<open>Conventions of the embedding\<close>

text \<open>
  The encoder is \<^verbatim>\<open>cli/internal/thumbhash/thumbhash.go\<close>, the decoder is the TypeScript
  module \<^verbatim>\<open>thumbhash.ts\<close> (functions \<^verbatim>\<open>thumbHashToRGBA\<close>, \<^verbatim>\<open>attenuateChroma\<close>,
  \<^verbatim>\<open>computeAvgRGB\<close>, \<^verbatim>\<open>applyBiasCorrection\<close>, \<^verbatim>\<open>thumbHashToDataURL\<close>).

  \<^item> A finite \<^verbatim>\<open>float32\<close> or \<^verbatim>\<open>float64\<close> value and a finite JavaScript number are modelled
    by the real number they denote; \<open>rnd32\<close> and \<open>rnd64\<close> round a real to the nearest
    value of the format, ties to even. Infinities are outside the model.
  \<^item> In the decoder every JavaScript \<^verbatim>\<open>+\<close>, \<^verbatim>\<open>-\<close>, \<^verbatim>\<open>*\<close> and \<^verbatim>\<open>/\<close> is the exact result
    rounded by \<open>rnd64\<close> (\<open>dadd\<close>, \<open>dsub\<close>, \<open>dmul\<close>, \<open>ddiv\<close>), a number literal is the
    \<^verbatim>\<open>float64\<close> nearest to it, and \<^verbatim>\<open>Math.round\<close> is exact. \<^verbatim>\<open>Math.cos\<close>, \<^verbatim>\<open>Math.sqrt\<close> and
    \<^verbatim>\<open>**\<close>, whose results ECMAScript leaves to the implementation, are parameters
    (\<open>jsMath\<close>) of the decoder.
  \<^item> In the encoder the \<^verbatim>\<open>float32\<close> operations that decide a discrete result, the
    averaging loop behind \<^verbatim>\<open>hasAlpha\<close> and the argument of the AC nibble, carry their
    rounding. The other \<^verbatim>\<open>float32\<close> arithmetic (proxy builder, LPQA conversion, DCT sums)
    is modelled by its exact result, and so are the \<^verbatim>\<open>float64\<close> products and sums of
    the header quantisation.
  \<^item> Go \<^verbatim>\<open>int\<close> is the 64-bit two's-complement integer; where a product can leave that
    range (\<^verbatim>\<open>thumbDims\<close>) the wrap-around is written out, elsewhere the values are
    bounded by the proxy size and plain \<open>int\<close>/\<open>nat\<close> is used.
  \<^item> A Go index or slice expression out of range panics; the panic is the value \<open>None\<close>.
  \<^item> Bytes are \<open>8 word\<close>; the Go header words are \<open>32 word\<close> and \<open>16 word\<close>; the
    JavaScript bit operators work on \<open>32 word\<close> (int32).
\<close>

section \<open>Floating-point rounding\<close>

text \<open>Rounding to the nearest integer, halves to the even neighbour.\<close>

definition roundHalfEven :: "real \<Rightarrow> int" where
  "roundHalfEven x =
     (if x - of_int \<lfloor>x\<rfloor> < 1 / 2 then \<lfloor>x\<rfloor>
      else if x - of_int \<lfloor>x\<rfloor> > 1 / 2 then \<lfloor>x\<rfloor> + 1
      else if even \<lfloor>x\<rfloor> then \<lfloor>x\<rfloor> else \<lfloor>x\<rfloor> + 1)"

text \<open>
  Rounding to a binary format of precision \<open>p\<close> and least exponent \<open>emin\<close>: the value is
  scaled by the unit in the last place of its binade (that of \<open>2 ^ emin\<close> for a subnormal
  value), rounded to an integer, ties to even, and scaled back.
\<close>

definition fround :: "nat \<Rightarrow> int \<Rightarrow> real \<Rightarrow> real" where
  "fround p emin x =
     (if x = 0 then 0
      else let e = max \<lfloor>log 2 \<bar>x\<bar>\<rfloor> emin;
               u = 2 powi (e - int p + 1)
           in of_int (roundHalfEven (x / u)) * u)"

definition rnd32 :: "real \<Rightarrow> real" where
  "rnd32 = fround 24 (- 126)"

definition rnd64 :: "real \<Rightarrow> real" where
  "rnd64 = fround 53 (- 1022)"

text \<open>The arithmetic operators of JavaScript on finite numbers.\<close>

definition dadd :: "real \<Rightarrow> real \<Rightarrow> real" where
  "dadd a b = rnd64 (a + b)"

definition dsub :: "real \<Rightarrow> real \<Rightarrow> real" where
  "dsub a b = rnd64 (a - b)"

definition dmul :: "real \<Rightarrow> real \<Rightarrow> real" where
  "dmul a b = rnd64 (a * b)"

definition ddiv :: "real \<Rightarrow> real \<Rightarrow> real" where
  "ddiv a b = rnd64 (a / b)"

text \<open>\<^verbatim>\<open>Math.PI\<close>\<close>

definition jsPI :: real where
  "jsPI = rnd64 pi"

text \<open>\<^verbatim>\<open>Math.cos\<close>, \<^verbatim>\<open>Math.sqrt\<close> and the operator \<^verbatim>\<open>**\<close> of the JavaScript engine that runs
  the decoder.\<close>

record jsMath =
  Math_cos :: "real \<Rightarrow> real"
  Math_sqrt :: "real \<Rightarrow> real"
  Num_pow :: "real \<Rightarrow> real \<Rightarrow> real"

section \<open>Go helpers\<close>

type_synonym byte = "8 word"

definition maxThumbDim :: int where
  "maxThumbDim = 100"

text \<open>\<^verbatim>\<open>func max1(v int) int\<close> and \<^verbatim>\<open>func imax(a, b int) int\<close>, used on \<open>int\<close> and, where
  the arguments are sizes, on \<open>nat\<close>.\<close>

definition max1 :: "'a::{one,ord} \<Rightarrow> 'a" where
  "max1 v = (if v < 1 then 1 else v)"

definition imax :: "'a::ord \<Rightarrow> 'a \<Rightarrow> 'a" where
  "imax a b = (if a > b then a else b)"

text \<open>The value a Go \<^verbatim>\<open>int\<close> holds after an arithmetic result \<open>x\<close> wrapped to 64 bits.\<close>

definition goInt :: "int \<Rightarrow> int" where
  "goInt x = (x + 2 ^ 63) mod 2 ^ 64 - 2 ^ 63"

text \<open>Go's integer quotient truncates towards zero.\<close>

definition goQuot :: "int \<Rightarrow> int \<Rightarrow> int" where
  "goQuot a b = (if (a < 0) = (b < 0) then \<bar>a\<bar> div \<bar>b\<bar> else - (\<bar>a\<bar> div \<bar>b\<bar>))"

text \<open>
  \<^verbatim>\<open>math.Round\<close> of the Go standard library: the nearest integer, halves rounded away
  from zero.
\<close>

definition goRound :: "real \<Rightarrow> int" where
  "goRound x = (if x < 0 then - \<lfloor>- x + 1 / 2\<rfloor> else \<lfloor>x + 1 / 2\<rfloor>)"

text \<open>\<^verbatim>\<open>func roundF(v float32) int { return int(math.Round(float64(v))) }\<close>, for \<open>v\<close> from
  \<open>- 2 ^ 63\<close> to \<open>2 ^ 63 - 1\<close>, where the rounded value is in the range of \<^verbatim>\<open>int\<close>: outside it
  Go leaves the result of the conversion to the implementation. The encoder calls it
  with values between 0 and 7.\<close>

definition roundF :: "real \<Rightarrow> int" where
  "roundF v = goRound v"

text \<open>\<^verbatim>\<open>func clamp01f(v float32) float32\<close>\<close>

definition clamp01f :: "real \<Rightarrow> real" where
  "clamp01f v = (if v < 0 then 0 else if v > 1 then 1 else v)"

text \<open>\<^verbatim>\<open>func boolU32(b bool) uint32\<close>\<close>

definition boolU32 :: "bool \<Rightarrow> 32 word" where
  "boolU32 b = (if b then 1 else 0)"

text \<open>
  \<^verbatim>\<open>func thumbDims(srcW, srcH int) (int, int)\<close>. Neither divisor can be zero: the
  first return is skipped only when one side exceeds 100, and the divisor is the larger
  side.
\<close>

definition thumbDims :: "int \<Rightarrow> int \<Rightarrow> int \<times> int" where
  "thumbDims srcW srcH =
     (if srcW \<le> maxThumbDim \<and> srcH \<le> maxThumbDim then (srcW, srcH)
      else if srcW \<ge> srcH
        then (maxThumbDim, max1 (goQuot (goInt (srcH * maxThumbDim)) srcW))
        else (max1 (goQuot (goInt (srcW * maxThumbDim)) srcH), maxThumbDim))"

text \<open>\<^verbatim>\<open>func srcSpan(d, dstSize, srcSize int) (int, int)\<close>, on the non-negative values it is
  called with.\<close>

definition srcSpan :: "nat \<Rightarrow> nat \<Rightarrow> nat \<Rightarrow> nat \<times> nat" where
  "srcSpan d dstSize srcSize =
     (let s0 = d * srcSize div dstSize;
          s1 = (d + 1) * srcSize div dstSize;
          s1 = (if s1 \<le> s0 then s0 + 1 else s1);
          s1 = (if s1 > srcSize then srcSize else s1)
      in (s0, s1))"

section \<open>The encoder: \<^verbatim>\<open>assembleHash\<close> and \<^verbatim>\<open>encodeChan\<close>\<close>

text \<open>
  Index expressions \<^verbatim>\<open>xs[i]\<close>, stores \<^verbatim>\<open>xs[i] = v\<close> and slice expressions \<^verbatim>\<open>xs[lo:hi]\<close>
  with Go's run-time checks. The slices \<^verbatim>\<open>assembleHash\<close> takes of the work buffer are
  pairwise disjoint and indexing is checked against the length of a slice, so each slice
  is modelled by a list of its own.
\<close>

definition rd :: "'a list \<Rightarrow> nat \<Rightarrow> 'a option" where
  "rd xs i = (if i < length xs then Some (xs ! i) else None)"

definition wr :: "'a list \<Rightarrow> nat \<Rightarrow> 'a \<Rightarrow> 'a list option" where
  "wr xs i v = (if i < length xs then Some (xs[i := v]) else None)"

definition slice :: "'a list \<Rightarrow> nat \<Rightarrow> nat \<Rightarrow> 'a list option" where
  "slice xs lo hi = (if lo \<le> hi \<and> hi \<le> length xs then Some (take (hi - lo) (drop lo xs)) else None)"

text \<open>The loop \<^verbatim>\<open>for i := 0; i < n; i++ { body }\<close> on a state \<open>s\<close>; a panic in the body
  ends the loop.\<close>

definition forUpto :: "nat \<Rightarrow> (nat \<Rightarrow> 's \<Rightarrow> 's option) \<Rightarrow> 's \<Rightarrow> 's option" where
  "forUpto n body s = fold (\<lambda>i r. Option.bind r (body i)) [0..<n] (Some s)"

text \<open>\<^verbatim>\<open>type workBuf struct\<close>: four arrays of fixed size.\<close>

record workBuf =
  wb_rgba :: "real list"
  wb_cosX :: "real list"
  wb_cosY :: "real list"
  wb_ac :: "real list"

definition workBuf_ok :: "workBuf \<Rightarrow> bool" where
  "workBuf_ok wb \<longleftrightarrow>
     length (wb_rgba wb) = 100 * 100 * 4 \<and> length (wb_cosX wb) = 8 * 100
     \<and> length (wb_cosY wb) = 8 * 100 \<and> length (wb_ac wb) = 128"

text \<open>Conversions of an integral float to \<^verbatim>\<open>uint32\<close>, \<^verbatim>\<open>uint16\<close> and \<^verbatim>\<open>byte\<close>. They are
  exact when the value is in range, the only case the encoder meets on a proxy in
  \<open>[0, 1]\<close>; out of range the model keeps the low bits.\<close>

definition toU32 :: "int \<Rightarrow> 32 word" where
  "toU32 v = word_of_int v"

definition toU16 :: "int \<Rightarrow> 16 word" where
  "toU16 v = word_of_int v"

definition toByte :: "int \<Rightarrow> byte" where
  "toByte v = word_of_int v"

text \<open>The first loop of \<^verbatim>\<open>assembleHash\<close> (average colour weighted by alpha) and the
  divisions after it, in \<^verbatim>\<open>float32\<close>; the value is \<^verbatim>\<open>avgA\<close>, the only average used later.\<close>

definition avgAlpha :: "nat \<Rightarrow> real list \<Rightarrow> real option" where
  "avgAlpha count rgba = do {
     (avgR, avgG, avgB, avgA) \<leftarrow> forUpto count (\<lambda>i (avgR, avgG, avgB, avgA). do {
        a \<leftarrow> rd rgba (i * 4 + 3);
        r \<leftarrow> rd rgba (i * 4);
        g \<leftarrow> rd rgba (i * 4 + 1);
        b \<leftarrow> rd rgba (i * 4 + 2);
        Some (rnd32 (avgR + rnd32 (a * r)), rnd32 (avgG + rnd32 (a * g)),
              rnd32 (avgB + rnd32 (a * b)), rnd32 (avgA + a)) }) (0, 0, 0, 0);
     let (avgR, avgG, avgB) =
           (if avgA > 0 then (rnd32 (avgR / avgA), rnd32 (avgG / avgA), rnd32 (avgB / avgA))
            else (avgR, avgG, avgB));
     Some (rnd32 (avgA / rnd32 (real count))) }"

text \<open>\<^verbatim>\<open>max1(roundF(float32(limit*d) / float32(maxWH)))\<close>\<close>

definition basisDim :: "nat \<Rightarrow> nat \<Rightarrow> nat \<Rightarrow> nat" where
  "basisDim limit d maxWH = nat (max1 (roundF (real (limit * d) / real maxWH)))"

text \<open>The loop \<^verbatim>\<open>// RGBA \<rightarrow> LPQA in-place\<close>.\<close>

definition toLPQA :: "nat \<Rightarrow> real list \<Rightarrow> real list option" where
  "toLPQA count rgba = forUpto count (\<lambda>i rgba. do {
     let off = i * 4;
     af \<leftarrow> rd rgba (off + 3);
     r0 \<leftarrow> rd rgba off;
     g0 \<leftarrow> rd rgba (off + 1);
     b0 \<leftarrow> rd rgba (off + 2);
     let r = r0 * af;
     let g = g0 * af;
     let b = b0 * af;
     rgba \<leftarrow> wr rgba off ((r + g + b) / 3);
     rgba \<leftarrow> wr rgba (off + 1) ((r + g) / 2 - b);
     wr rgba (off + 2) (r - g) }) rgba"

text \<open>The two loops that fill a cosine table: \<^verbatim>\<open>tbl[c*w + x] = cos(\<pi> c / w * (x + 0.5))\<close>
  for \<open>c < maxN\<close> and \<open>x < w\<close>.\<close>

definition cosTable :: "nat \<Rightarrow> nat \<Rightarrow> real list \<Rightarrow> real list option" where
  "cosTable maxN w tbl = forUpto maxN (\<lambda>c tbl.
     let s = pi * real c / real w; base = c * w
     in forUpto w (\<lambda>x tbl. wr tbl (base + x) (cos (s * (real x + 0.5)))) tbl) tbl"

text \<open>The two inner loops of \<^verbatim>\<open>encodeChan\<close>: the sum \<^verbatim>\<open>f\<close> for one \<open>(cx, cy)\<close>.\<close>

definition dctSum ::
  "real list \<Rightarrow> nat \<Rightarrow> nat \<Rightarrow> nat \<Rightarrow> nat \<Rightarrow> real list \<Rightarrow> real list \<Rightarrow> nat \<Rightarrow> nat \<Rightarrow> real option" where
  "dctSum data chanOff stride w h cosX cosY cxBase cyBase =
     forUpto h (\<lambda>y f. do {
       fy \<leftarrow> rd cosY (cyBase + y);
       let rowOff = y * w * stride;
       forUpto w (\<lambda>x f. do {
         d \<leftarrow> rd data (rowOff + x * stride + chanOff);
         c \<leftarrow> rd cosX (cxBase + x);
         Some (f + d * c * fy) }) f }) 0"

text \<open>The loops of \<^verbatim>\<open>encodeChan\<close> over \<open>cy\<close> and \<open>cx\<close>. Their state is
  \<open>(dc, acMax, idx, dst)\<close>.\<close>

definition dctLoop ::
  "real list \<Rightarrow> nat \<Rightarrow> nat \<Rightarrow> nat \<Rightarrow> nat \<Rightarrow> nat \<Rightarrow> nat \<Rightarrow> real list \<Rightarrow> real list \<Rightarrow> real list
   \<Rightarrow> (real \<times> real \<times> nat \<times> real list) option" where
  "dctLoop data chanOff stride w h nx ny cosX cosY dst =
     (let wh = real (w * h) in
      forUpto ny (\<lambda>cy st.
        let cyBase = cy * h in
        forUpto nx (\<lambda>cx (dc, acMax, idx, dst). do {
          let cxBase = cx * w;
          f \<leftarrow> dctSum data chanOff stride w h cosX cosY cxBase cyBase;
          let f = f / wh;
          if cx = 0 \<and> cy = 0 then Some (f, acMax, idx, dst)
          else do {
            dst \<leftarrow> wr dst idx f;
            let af = (if f < 0 then - f else f);
            let acMax = (if af > acMax then af else acMax);
            Some (dc, acMax, idx + 1, dst) } }) st) (0, 0, 0, dst))"

text \<open>\<^verbatim>\<open>func encodeChan(data, chanOff, stride, w, h, nx, ny, cosX, cosY, dst)\<close>: the loops,
  then the scaling of \<^verbatim>\<open>dst[:idx]\<close> by \<^verbatim>\<open>1 / acMax\<close>. The result is \<open>(acMax, dc)\<close> and the
  slice \<open>dst\<close> the function has filled.\<close>

definition encodeChan ::
  "real list \<Rightarrow> nat \<Rightarrow> nat \<Rightarrow> nat \<Rightarrow> nat \<Rightarrow> nat \<Rightarrow> nat \<Rightarrow> real list \<Rightarrow> real list \<Rightarrow> real list
   \<Rightarrow> (real \<times> real \<times> real list) option" where
  "encodeChan data chanOff stride w h nx ny cosX cosY dst = do {
     (dc, acMax, idx, dst) \<leftarrow> dctLoop data chanOff stride w h nx ny cosX cosY dst;
     dst \<leftarrow> (if acMax > 0 then do {
               let inv = 1 / acMax;
               pre \<leftarrow> slice dst 0 idx;
               forUpto (length pre) (\<lambda>i dst. do { v \<leftarrow> rd dst i; wr dst i (v * inv) }) dst }
             else Some dst);
     Some (acMax, dc, dst) }"

text \<open>The values \<^verbatim>\<open>assembleHash\<close> has computed when it reaches the header comment: the
  inputs of the bit packer.\<close>

record channels =
  e_hasAlpha :: bool
  e_lx :: nat
  e_ly :: nat
  e_px :: nat
  e_py :: nat
  e_ax :: nat
  e_ay :: nat
  e_lScale :: real
  e_lDC :: real
  e_pScale :: real
  e_pDC :: real
  e_qScale :: real
  e_qDC :: real
  e_aScale :: real
  e_aDC :: real
  e_lAC :: "real list"
  e_pAC :: "real list"
  e_qAC :: "real list"
  e_aAC :: "real list"

text \<open>The basis dimensions \<open>(lx, ly, px, py, ax, ay)\<close> that \<^verbatim>\<open>assembleHash\<close> chooses from
  the proxy size and \<^verbatim>\<open>hasAlpha\<close>; \<^verbatim>\<open>ax\<close> and \<^verbatim>\<open>ay\<close> keep their zero value without alpha.\<close>

definition basisDims :: "nat \<Rightarrow> nat \<Rightarrow> bool \<Rightarrow> nat \<times> nat \<times> nat \<times> nat \<times> nat \<times> nat" where
  "basisDims w h hasAlpha =
     (let lLimit = (if hasAlpha then 5 else 7);
          maxWH = imax w h;
          lx = basisDim lLimit w maxWH;
          ly = basisDim lLimit h maxWH;
          px = basisDim 3 w maxWH;
          py = basisDim 3 h maxWH;
          ax = (if hasAlpha then basisDim 5 w maxWH else 0);
          ay = (if hasAlpha then basisDim 5 h maxWH else 0)
      in (lx, ly, px, py, ax, ay))"

text \<open>\<^verbatim>\<open>assembleHash\<close> from \<^verbatim>\<open>// Pre-compute cosine tables\<close> to the four calls of
  \<^verbatim>\<open>encodeChan\<close>; \<open>rgba\<close> is the proxy slice after the conversion to LPQA.\<close>

definition encodeChannels ::
  "nat \<Rightarrow> nat \<Rightarrow> bool \<Rightarrow> nat \<times> nat \<times> nat \<times> nat \<times> nat \<times> nat \<Rightarrow> real list \<Rightarrow> workBuf
   \<Rightarrow> channels option" where
  "encodeChannels w h hasAlpha dims rgba wb = (case dims of (lx, ly, px, py, ax, ay) \<Rightarrow> do {
     let maxNx = (if hasAlpha then imax (imax lx px) ax else imax lx px);
     let maxNy = (if hasAlpha then imax (imax ly py) ay else imax ly py);
     cosX \<leftarrow> slice (wb_cosX wb) 0 (maxNx * w);
     cosX \<leftarrow> cosTable maxNx w cosX;
     cosY \<leftarrow> slice (wb_cosY wb) 0 (maxNy * h);
     cosY \<leftarrow> cosTable maxNy h cosY;
     let lN = lx * ly - 1;
     let pN = px * py - 1;
     let qN = pN;
     let aN = (if hasAlpha then ax * ay - 1 else 0);
     lAC \<leftarrow> slice (wb_ac wb) 0 lN;
     pAC \<leftarrow> slice (wb_ac wb) lN (lN + pN);
     qAC \<leftarrow> slice (wb_ac wb) (lN + pN) (lN + pN + qN);
     aAC \<leftarrow> (if hasAlpha then slice (wb_ac wb) (lN + pN + qN) (lN + pN + qN + aN) else Some []);
     (lScale, lDC, lAC) \<leftarrow> encodeChan rgba 0 4 w h lx ly cosX cosY lAC;
     (pScale, pDC, pAC) \<leftarrow> encodeChan rgba 1 4 w h px py cosX cosY pAC;
     (qScale, qDC, qAC) \<leftarrow> encodeChan rgba 2 4 w h px py cosX cosY qAC;
     (aScale, aDC, aAC) \<leftarrow> (if hasAlpha then encodeChan rgba 3 4 w h ax ay cosX cosY aAC
                               else Some (0, 0, aAC));
     Some \<lparr>e_hasAlpha = hasAlpha, e_lx = lx, e_ly = ly, e_px = px, e_py = py,
            e_ax = ax, e_ay = ay, e_lScale = lScale, e_lDC = lDC, e_pScale = pScale,
            e_pDC = pDC, e_qScale = qScale, e_qDC = qDC, e_aScale = aScale, e_aDC = aDC,
            e_lAC = lAC, e_pAC = pAC, e_qAC = qAC, e_aAC = aAC\<rparr> })"

text \<open>\<^verbatim>\<open>assembleHash\<close> from its first line to the four calls of \<^verbatim>\<open>encodeChan\<close>.
  \<open>w\<close> and \<open>h\<close> are the proxy dimensions, at least 1 when \<^verbatim>\<open>Encode\<close> calls.\<close>

definition transform :: "nat \<Rightarrow> nat \<Rightarrow> workBuf \<Rightarrow> channels option" where
  "transform w h wb = do {
     let count = w * h;
     rgba \<leftarrow> slice (wb_rgba wb) 0 (count * 4);
     avgA \<leftarrow> avgAlpha count rgba;
     let hasAlpha = (avgA < 1);
     let dims = basisDims w h hasAlpha;
     rgba \<leftarrow> toLPQA count rgba;
     encodeChannels w h hasAlpha dims rgba wb }"

text \<open>The three header words.\<close>

definition encHeader :: "nat \<Rightarrow> nat \<Rightarrow> channels \<Rightarrow> 32 word" where
  "encHeader w h e =
     (let isLandscape = (w > h);
          header = toU32 (goRound (e_lDC e * 63))
                   OR push_bit 6 (toU32 (goRound (e_pDC e * 31 + 31)))
                   OR push_bit 12 (toU32 (goRound (e_qDC e * 31 + 31)))
                   OR push_bit 18 (toU32 (goRound (e_lScale e * 31)))
                   OR push_bit 23 (boolU32 (e_hasAlpha e));
          header = (if isLandscape then header OR push_bit 24 (of_nat (e_ly e))
                    else header OR push_bit 24 (of_nat (e_lx e)))
      in header OR push_bit 28 (boolU32 isLandscape))"

definition encHeader2 :: "channels \<Rightarrow> 16 word" where
  "encHeader2 e = toU16 (goRound (e_pScale e * 63)) OR push_bit 6 (toU16 (goRound (e_qScale e * 63)))"

definition encAlphaHdr :: "channels \<Rightarrow> 16 word" where
  "encAlphaHdr e =
     (if e_hasAlpha e
      then toU16 (goRound (e_aDC e * 15)) OR push_bit 4 (toU16 (goRound (e_aScale e * 15)))
      else 0)"

text \<open>The nibble of one AC coefficient: \<^verbatim>\<open>c/2 + 0.5\<close> in \<^verbatim>\<open>float32\<close>, the product with 15
  in \<^verbatim>\<open>float64\<close>, where it is exact. The closure \<^verbatim>\<open>packAC\<close> follows; its captured variables
  \<^verbatim>\<open>hash\<close> and \<^verbatim>\<open>nib\<close> are the state.\<close>

definition acNibble :: "real \<Rightarrow> byte" where
  "acNibble c = toByte (goRound (clamp01f (rnd32 (rnd32 (c / 2) + 0.5)) * 15))"

definition packAC :: "nat \<Rightarrow> real list \<Rightarrow> byte list \<times> nat \<Rightarrow> (byte list \<times> nat) option" where
  "packAC acOff ac st =
     fold (\<lambda>c r. do {
       (hash, nib) \<leftarrow> r;
       let b = acNibble c;
       let pos = acOff + nib div 2;
       hash \<leftarrow> (if nib mod 2 = 0 then wr hash pos b
                else do { old \<leftarrow> rd hash pos; wr hash pos (old OR push_bit 4 b) });
       Some (hash, nib + 1) }) ac (Some st)"

text \<open>\<^verbatim>\<open>assembleHash\<close> from \<^verbatim>\<open>isLandscape := w > h\<close> to its end: the bit packer.\<close>

definition packHash :: "nat \<Rightarrow> nat \<Rightarrow> channels \<Rightarrow> byte list option" where
  "packHash w h e = do {
     let header = encHeader w h e;
     let header2 = encHeader2 e;
     let alphaHdr = encAlphaHdr e;
     let lN = e_lx e * e_ly e - 1;
     let pN = e_px e * e_py e - 1;
     let qN = pN;
     let aN = (if e_hasAlpha e then e_ax e * e_ay e - 1 else 0);
     let totalAC = lN + pN + qN + aN;
     let hashLen = (if e_hasAlpha e then 8 else 6) + (totalAC + 1) div 2;
     let hash = replicate hashLen (0 :: byte);
     hash \<leftarrow> wr hash 0 (ucast header);
     hash \<leftarrow> wr hash 1 (ucast (drop_bit 8 header));
     hash \<leftarrow> wr hash 2 (ucast (drop_bit 16 header));
     hash \<leftarrow> wr hash 3 (ucast (drop_bit 24 header));
     hash \<leftarrow> wr hash 4 (ucast header2);
     hash \<leftarrow> wr hash 5 (ucast (drop_bit 8 header2));
     hash \<leftarrow> (if e_hasAlpha e then do {
                 hash \<leftarrow> wr hash 6 (ucast alphaHdr);
                 wr hash 7 (ucast (drop_bit 8 alphaHdr)) }
               else Some hash);
     let acOff = (if e_hasAlpha e then 8 else 6);
     st \<leftarrow> packAC acOff (e_lAC e) (hash, 0);
     st \<leftarrow> packAC acOff (e_pAC e) st;
     st \<leftarrow> packAC acOff (e_qAC e) st;
     st \<leftarrow> (if e_hasAlpha e then packAC acOff (e_aAC e) st else Some st);
     Some (fst st) }"

text \<open>\<^verbatim>\<open>func assembleHash(w, h int, wb *workBuf) []byte\<close>\<close>

definition assembleHash :: "nat \<Rightarrow> nat \<Rightarrow> workBuf \<Rightarrow> byte list option" where
  "assembleHash w h wb = do { e \<leftarrow> transform w h wb; packHash w h e }"

section \<open>Source images and the proxy builder\<close>

text \<open>
  The Go standard library's \<^verbatim>\<open>image.Rectangle\<close> and the image types the encoder
  switches on; every other implementation of \<^verbatim>\<open>image.Image\<close> is a bounds rectangle and
  an \<^verbatim>\<open>At\<close> function whose colours are given by their \<^verbatim>\<open>RGBA()\<close> values (alpha-premultiplied,
  16 bits in a \<^verbatim>\<open>uint32\<close>).
\<close>

record rectangle =
  minX :: int
  minY :: int
  maxX :: int
  maxY :: int

datatype subsample = S444 | S422 | S420 | S440 | S411 | S410

record pixImage =
  Pix :: "byte list"
  Stride :: int
  Rect :: rectangle

record ycbcrImage =
  YPlane :: "byte list"
  CbPlane :: "byte list"
  CrPlane :: "byte list"
  YStride :: int
  CStride :: int
  SubsampleRatio :: subsample
  YCbCrRect :: rectangle

datatype image =
    NRGBA pixImage
  | RGBA pixImage
  | YCbCr ycbcrImage
  | Gray pixImage
  | Generic rectangle "int \<Rightarrow> int \<Rightarrow> 32 word \<times> 32 word \<times> 32 word \<times> 32 word"

text \<open>\<^verbatim>\<open>img.Bounds()\<close>\<close>

fun Bounds :: "image \<Rightarrow> rectangle" where
  "Bounds (NRGBA s) = Rect s"
| "Bounds (RGBA s) = Rect s"
| "Bounds (YCbCr s) = YCbCrRect s"
| "Bounds (Gray s) = Rect s"
| "Bounds (Generic r atFn) = r"

text \<open>An index expression with an \<^verbatim>\<open>int\<close> index: a negative index panics too.\<close>

definition rdI :: "'a list \<Rightarrow> int \<Rightarrow> 'a option" where
  "rdI xs i = (if 0 \<le> i \<and> i < int (length xs) then Some (xs ! nat i) else None)"

text \<open>\<^verbatim>\<open>float32(b)\<close> of a byte and of a \<^verbatim>\<open>uint32\<close>.\<close>

definition f32 :: "'a::len word \<Rightarrow> real" where
  "f32 b = real (unat b)"

text \<open>The four stores \<^verbatim>\<open>rgba[di], ..., rgba[di+3] = r, g, b, a\<close>.\<close>

definition store4 :: "real list \<Rightarrow> nat \<Rightarrow> real \<Rightarrow> real \<Rightarrow> real \<Rightarrow> real \<Rightarrow> real list option" where
  "store4 rgba di r g b a = do {
     rgba \<leftarrow> wr rgba di r;
     rgba \<leftarrow> wr rgba (di + 1) g;
     rgba \<leftarrow> wr rgba (di + 2) b;
     wr rgba (di + 3) a }"

text \<open>The three stores of the premultiplied paths, made only when alpha is positive.\<close>

definition store3 :: "real list \<Rightarrow> nat \<Rightarrow> real \<Rightarrow> real \<Rightarrow> real \<Rightarrow> real list option" where
  "store3 rgba di r g b = do {
     rgba \<leftarrow> wr rgba di r;
     rgba \<leftarrow> wr rgba (di + 1) g;
     wr rgba (di + 2) b }"

text \<open>The lookup tables filled by \<^verbatim>\<open>init\<close>, as functions of the byte.\<close>

definition ycbcrCrR :: "byte \<Rightarrow> int" where
  "ycbcrCrR i = goRound (1.40200 * (real (unat i) - 128.0))"

definition ycbcrCbG :: "byte \<Rightarrow> int" where
  "ycbcrCbG i = goRound (0.34414 * (real (unat i) - 128.0))"

definition ycbcrCrG :: "byte \<Rightarrow> int" where
  "ycbcrCrG i = goRound (0.71414 * (real (unat i) - 128.0))"

definition ycbcrCbB :: "byte \<Rightarrow> int" where
  "ycbcrCbB i = goRound (1.77200 * (real (unat i) - 128.0))"

text \<open>\<^verbatim>\<open>func clampByte(v int32) int32\<close>\<close>

definition clampByte :: "int \<Rightarrow> int" where
  "clampByte v = (if v < 0 then 0 else if v > 255 then 255 else v)"

text \<open>\<^verbatim>\<open>(*image.YCbCr).COffset(x, y)\<close> of the Go standard library.\<close>

definition COffset :: "ycbcrImage \<Rightarrow> int \<Rightarrow> int \<Rightarrow> int" where
  "COffset s x y =
     (let r = YCbCrRect s in
      case SubsampleRatio s of
        S422 \<Rightarrow> (y - minY r) * CStride s + (goQuot x 2 - goQuot (minX r) 2)
      | S420 \<Rightarrow> (goQuot y 2 - goQuot (minY r) 2) * CStride s + (goQuot x 2 - goQuot (minX r) 2)
      | S440 \<Rightarrow> (goQuot y 2 - goQuot (minY r) 2) * CStride s + (x - minX r)
      | S411 \<Rightarrow> (y - minY r) * CStride s + (goQuot x 4 - goQuot (minX r) 4)
      | S410 \<Rightarrow> (goQuot y 2 - goQuot (minY r) 2) * CStride s + (goQuot x 4 - goQuot (minX r) 4)
      | S444 \<Rightarrow> (y - minY r) * CStride s + (x - minX r))"

text \<open>
  \<^verbatim>\<open>func extractPixels(img, bounds, w, h, rgba)\<close>, one definition for each case of the type
  switch. The running offsets \<^verbatim>\<open>off\<close> and \<^verbatim>\<open>di\<close> of the source are written in closed form:
  \<^verbatim>\<open>off\<close> is its row start plus the steps taken, \<^verbatim>\<open>di\<close> is \<open>(y * w + x) * 4\<close>.
\<close>

definition exNRGBA :: "pixImage \<Rightarrow> rectangle \<Rightarrow> nat \<Rightarrow> nat \<Rightarrow> real list \<Rightarrow> real list option" where
  "exNRGBA src bounds w h rgba =
     (let bY = minY bounds - minY (Rect src);
          bX4 = (minX bounds - minX (Rect src)) * 4
      in forUpto h (\<lambda>y rgba. forUpto w (\<lambda>x rgba. do {
           let off = (bY + int y) * Stride src + bX4 + 4 * int x;
           r \<leftarrow> rdI (Pix src) off;
           g \<leftarrow> rdI (Pix src) (off + 1);
           b \<leftarrow> rdI (Pix src) (off + 2);
           a \<leftarrow> rdI (Pix src) (off + 3);
           store4 rgba ((y * w + x) * 4) (f32 r / 255) (f32 g / 255) (f32 b / 255) (f32 a / 255)
         }) rgba) rgba)"

definition exRGBA :: "pixImage \<Rightarrow> rectangle \<Rightarrow> nat \<Rightarrow> nat \<Rightarrow> real list \<Rightarrow> real list option" where
  "exRGBA src bounds w h rgba =
     (let bY = minY bounds - minY (Rect src);
          bX4 = (minX bounds - minX (Rect src)) * 4
      in forUpto h (\<lambda>y rgba. forUpto w (\<lambda>x rgba. do {
           let off = (bY + int y) * Stride src + bX4 + 4 * int x;
           let di = (y * w + x) * 4;
           a8 \<leftarrow> rdI (Pix src) (off + 3);
           let a = f32 a8;
           rgba \<leftarrow> (if a > 0 then do {
                       r \<leftarrow> rdI (Pix src) off;
                       g \<leftarrow> rdI (Pix src) (off + 1);
                       b \<leftarrow> rdI (Pix src) (off + 2);
                       store3 rgba di (f32 r / a) (f32 g / a) (f32 b / a) }
                     else Some rgba);
           wr rgba (di + 3) (a / 255)
         }) rgba) rgba)"

definition exYCbCr :: "ycbcrImage \<Rightarrow> rectangle \<Rightarrow> nat \<Rightarrow> nat \<Rightarrow> real list \<Rightarrow> real list option" where
  "exYCbCr src bounds w h rgba =
     (let ryBase = minY bounds - minY (YCbCrRect src);
          rxBase = minX bounds - minX (YCbCrRect src)
      in forUpto h (\<lambda>y rgba. forUpto w (\<lambda>x rgba. do {
           let yOff = (ryBase + int y) * YStride src + rxBase;
           y8 \<leftarrow> rdI (YPlane src) (yOff + int x);
           let yv = int (unat y8);
           let ci = COffset src (minX bounds + int x) (minY bounds + int y);
           cr \<leftarrow> rdI (CrPlane src) ci;
           cb \<leftarrow> rdI (CbPlane src) ci;
           store4 rgba ((y * w + x) * 4)
             (real_of_int (clampByte (yv + ycbcrCrR cr)) / 255)
             (real_of_int (clampByte (yv - ycbcrCbG cb - ycbcrCrG cr)) / 255)
             (real_of_int (clampByte (yv + ycbcrCbB cb)) / 255)
             1
         }) rgba) rgba)"

definition exGray :: "pixImage \<Rightarrow> rectangle \<Rightarrow> nat \<Rightarrow> nat \<Rightarrow> real list \<Rightarrow> real list option" where
  "exGray src bounds w h rgba =
     (let bY = minY bounds - minY (Rect src);
          bX = minX bounds - minX (Rect src)
      in forUpto h (\<lambda>y rgba. forUpto w (\<lambda>x rgba. do {
           let off = (bY + int y) * Stride src + bX + int x;
           v8 \<leftarrow> rdI (Pix src) off;
           let v = f32 v8 / 255;
           store4 rgba ((y * w + x) * 4) v v v 1
         }) rgba) rgba)"

text \<open>The default case loops over the bounds themselves, \<open>Dy\<close> rows of \<open>Dx\<close> pixels.\<close>

definition exGeneric ::
  "(int \<Rightarrow> int \<Rightarrow> 32 word \<times> 32 word \<times> 32 word \<times> 32 word) \<Rightarrow> rectangle \<Rightarrow> real list
   \<Rightarrow> real list option" where
  "exGeneric atFn bounds rgba =
     (let rows = nat (maxY bounds - minY bounds);
          cols = nat (maxX bounds - minX bounds)
      in forUpto rows (\<lambda>y rgba. forUpto cols (\<lambda>x rgba. do {
           let (r, g, b, a) = atFn (minX bounds + int x) (minY bounds + int y);
           let di = (y * cols + x) * 4;
           let af = f32 a / 65535;
           rgba \<leftarrow> (if af > 0
                     then store3 rgba di (f32 r / 65535 / af) (f32 g / 65535 / af)
                            (f32 b / 65535 / af)
                     else Some rgba);
           wr rgba (di + 3) af
         }) rgba) rgba)"

fun extractPixels :: "image \<Rightarrow> rectangle \<Rightarrow> nat \<Rightarrow> nat \<Rightarrow> real list \<Rightarrow> real list option" where
  "extractPixels (NRGBA src) bounds w h rgba = exNRGBA src bounds w h rgba"
| "extractPixels (RGBA src) bounds w h rgba = exRGBA src bounds w h rgba"
| "extractPixels (YCbCr src) bounds w h rgba = exYCbCr src bounds w h rgba"
| "extractPixels (Gray src) bounds w h rgba = exGray src bounds w h rgba"
| "extractPixels (Generic r atFn) bounds w h rgba = exGeneric atFn bounds rgba"

text \<open>
  The accumulation loops of the area downscalers: the sum, in a \<^verbatim>\<open>uint32\<close>, of the bytes
  \<^verbatim>\<open>data[base(sy) + k*step + c]\<close> for \<open>sy\<close> in \<open>[sy0, sy1)\<close> and \<open>k < n\<close>. (The 4-wide unrolled
  loop over the Y plane adds the same bytes.)
\<close>

definition sumBytes ::
  "byte list \<Rightarrow> (nat \<Rightarrow> int) \<Rightarrow> int \<Rightarrow> nat \<Rightarrow> nat \<Rightarrow> nat \<Rightarrow> 32 word option" where
  "sumBytes data base step sy0 sy1 n =
     forUpto (sy1 - sy0) (\<lambda>j acc.
       forUpto n (\<lambda>k acc. do {
         v \<leftarrow> rdI data (base (sy0 + j) + int k * step);
         Some (acc + ucast v) }) acc) 0"

text \<open>\<^verbatim>\<open>func dsNRGBA\<close>\<close>

definition dsNRGBA ::
  "pixImage \<Rightarrow> rectangle \<Rightarrow> nat \<Rightarrow> nat \<Rightarrow> nat \<Rightarrow> nat \<Rightarrow> real list \<Rightarrow> real list option" where
  "dsNRGBA src bounds srcW srcH dstW dstH rgba =
     (let bY = minY bounds - minY (Rect src);
          bX4 = (minX bounds - minX (Rect src)) * 4
      in forUpto dstH (\<lambda>dy rgba.
           let (sy0, sy1) = srcSpan dy dstH srcH in
           forUpto dstW (\<lambda>dx rgba. do {
             let (sx0, sx1) = srcSpan dx dstW srcW;
             let base = (\<lambda>c sy. (bY + int sy) * Stride src + bX4 + int sx0 * 4 + c);
             rS \<leftarrow> sumBytes (Pix src) (base 0) 4 sy0 sy1 (sx1 - sx0);
             gS \<leftarrow> sumBytes (Pix src) (base 1) 4 sy0 sy1 (sx1 - sx0);
             bS \<leftarrow> sumBytes (Pix src) (base 2) 4 sy0 sy1 (sx1 - sx0);
             aS \<leftarrow> sumBytes (Pix src) (base 3) 4 sy0 sy1 (sx1 - sx0);
             let inv = 1 / (real ((sy1 - sy0) * (sx1 - sx0)) * 255);
             store4 rgba ((dy * dstW + dx) * 4) (f32 rS * inv) (f32 gS * inv) (f32 bS * inv)
               (f32 aS * inv)
           }) rgba) rgba)"

text \<open>\<^verbatim>\<open>func dsRGBA\<close>\<close>

definition dsRGBA ::
  "pixImage \<Rightarrow> rectangle \<Rightarrow> nat \<Rightarrow> nat \<Rightarrow> nat \<Rightarrow> nat \<Rightarrow> real list \<Rightarrow> real list option" where
  "dsRGBA src bounds srcW srcH dstW dstH rgba =
     (let bY = minY bounds - minY (Rect src);
          bX4 = (minX bounds - minX (Rect src)) * 4
      in forUpto dstH (\<lambda>dy rgba.
           let (sy0, sy1) = srcSpan dy dstH srcH in
           forUpto dstW (\<lambda>dx rgba. do {
             let (sx0, sx1) = srcSpan dx dstW srcW;
             let base = (\<lambda>c sy. (bY + int sy) * Stride src + bX4 + int sx0 * 4 + c);
             rS \<leftarrow> sumBytes (Pix src) (base 0) 4 sy0 sy1 (sx1 - sx0);
             gS \<leftarrow> sumBytes (Pix src) (base 1) 4 sy0 sy1 (sx1 - sx0);
             bS \<leftarrow> sumBytes (Pix src) (base 2) 4 sy0 sy1 (sx1 - sx0);
             aS \<leftarrow> sumBytes (Pix src) (base 3) 4 sy0 sy1 (sx1 - sx0);
             let di = (dy * dstW + dx) * 4;
             rgba \<leftarrow> (if aS > 0
                       then store3 rgba di (f32 rS / f32 aS) (f32 gS / f32 aS) (f32 bS / f32 aS)
                       else Some rgba);
             wr rgba (di + 3) (f32 aS / (real ((sy1 - sy0) * (sx1 - sx0)) * 255))
           }) rgba) rgba)"

text \<open>Pass 1 of \<^verbatim>\<open>dsYCbCr420\<close> and \<^verbatim>\<open>dsYCbCr422\<close>: the mean of the Y plane over each
  span, stored in the red slot.\<close>

definition dsYPlane ::
  "ycbcrImage \<Rightarrow> rectangle \<Rightarrow> nat \<Rightarrow> nat \<Rightarrow> nat \<Rightarrow> nat \<Rightarrow> real list \<Rightarrow> real list option" where
  "dsYPlane src bounds srcW srcH dstW dstH rgba =
     (let yBY = minY bounds - minY (YCbCrRect src);
          yBX = minX bounds - minX (YCbCrRect src)
      in forUpto dstH (\<lambda>dy rgba.
           let (sy0, sy1) = srcSpan dy dstH srcH in
           forUpto dstW (\<lambda>dx rgba. do {
             let (sx0, sx1) = srcSpan dx dstW srcW;
             yS \<leftarrow> sumBytes (YPlane src) (\<lambda>sy. (yBY + int sy) * YStride src + yBX + int sx0) 1
                     sy0 sy1 (sx1 - sx0);
             wr rgba ((dy * dstW + dx) * 4) (f32 yS / real ((sy1 - sy0) * (sx1 - sx0)))
           }) rgba) rgba)"

text \<open>Pass 2 of \<^verbatim>\<open>dsYCbCr420\<close> and \<^verbatim>\<open>dsYCbCr422\<close>, for a chroma plane of size
  \<open>cSrcW\<close> by \<open>cSrcH\<close> whose first sample is at \<open>(cBX, cBY)\<close>.\<close>

definition dsChroma ::
  "ycbcrImage \<Rightarrow> int \<Rightarrow> int \<Rightarrow> nat \<Rightarrow> nat \<Rightarrow> nat \<Rightarrow> nat \<Rightarrow> real list \<Rightarrow> real list option" where
  "dsChroma src cBX cBY cSrcW cSrcH dstW dstH rgba =
     forUpto dstH (\<lambda>dy rgba.
       let (csy0, csy1) = srcSpan dy dstH cSrcH in
       forUpto dstW (\<lambda>dx rgba. do {
         let (csx0, csx1) = srcSpan dx dstW cSrcW;
         let base = (\<lambda>csy. (cBY + int csy) * CStride src + cBX + int csx0);
         cbS \<leftarrow> sumBytes (CbPlane src) base 1 csy0 csy1 (csx1 - csx0);
         crS \<leftarrow> sumBytes (CrPlane src) base 1 csy0 csy1 (csx1 - csx0);
         let cnt = real ((csy1 - csy0) * (csx1 - csx0));
         let cb = f32 cbS / cnt - 128;
         let cr = f32 crS / cnt - 128;
         let di = (dy * dstW + dx) * 4;
         y \<leftarrow> rd rgba di;
         store4 rgba di (clamp01f ((y + 1.402 * cr) / 255))
           (clamp01f ((y - 0.34414 * cb - 0.71414 * cr) / 255))
           (clamp01f ((y + 1.772 * cb) / 255)) 1
       }) rgba) rgba"

text \<open>\<^verbatim>\<open>func dsYCbCr420\<close> and \<^verbatim>\<open>func dsYCbCr422\<close>\<close>

definition dsYCbCr420 ::
  "ycbcrImage \<Rightarrow> rectangle \<Rightarrow> nat \<Rightarrow> nat \<Rightarrow> nat \<Rightarrow> nat \<Rightarrow> real list \<Rightarrow> real list option" where
  "dsYCbCr420 src bounds srcW srcH dstW dstH rgba = do {
     rgba \<leftarrow> dsYPlane src bounds srcW srcH dstW dstH rgba;
     let cSrcW = (srcW + 1) div 2;
     let cSrcH = (srcH + 1) div 2;
     let cBY = goQuot (minY bounds) 2 - goQuot (minY (YCbCrRect src)) 2;
     let cBX = goQuot (minX bounds) 2 - goQuot (minX (YCbCrRect src)) 2;
     dsChroma src cBX cBY cSrcW cSrcH dstW dstH rgba }"

definition dsYCbCr422 ::
  "ycbcrImage \<Rightarrow> rectangle \<Rightarrow> nat \<Rightarrow> nat \<Rightarrow> nat \<Rightarrow> nat \<Rightarrow> real list \<Rightarrow> real list option" where
  "dsYCbCr422 src bounds srcW srcH dstW dstH rgba = do {
     rgba \<leftarrow> dsYPlane src bounds srcW srcH dstW dstH rgba;
     let cSrcW = (srcW + 1) div 2;
     let cSrcH = srcH;
     let cBY = minY bounds - minY (YCbCrRect src);
     let cBX = goQuot (minX bounds) 2 - goQuot (minX (YCbCrRect src)) 2;
     dsChroma src cBX cBY cSrcW cSrcH dstW dstH rgba }"

text \<open>The accumulation loops of \<^verbatim>\<open>dsYCbCrAny\<close>: three \<^verbatim>\<open>int32\<close> sums.\<close>

definition sumYCbCr ::
  "ycbcrImage \<Rightarrow> rectangle \<Rightarrow> nat \<Rightarrow> nat \<Rightarrow> nat \<Rightarrow> nat
   \<Rightarrow> (32 word \<times> 32 word \<times> 32 word) option" where
  "sumYCbCr src bounds sy0 sy1 sx0 sx1 =
     (let ryBase = minY bounds - minY (YCbCrRect src);
          rxBase = minX bounds - minX (YCbCrRect src)
      in forUpto (sy1 - sy0) (\<lambda>j acc.
           let sy = sy0 + j; yOff = (ryBase + int sy) * YStride src + rxBase in
           forUpto (sx1 - sx0) (\<lambda>k (rS, gS, bS). do {
             let sx = sx0 + k;
             y8 \<leftarrow> rdI (YPlane src) (yOff + int sx);
             let y = int (unat y8);
             let ci = COffset src (minX bounds + int sx) (minY bounds + int sy);
             cr \<leftarrow> rdI (CrPlane src) ci;
             cb \<leftarrow> rdI (CbPlane src) ci;
             Some (rS + word_of_int (y + ycbcrCrR cr),
                   gS + word_of_int (y - ycbcrCbG cb - ycbcrCrG cr),
                   bS + word_of_int (y + ycbcrCbB cb)) }) acc) (0, 0, 0))"

text \<open>\<^verbatim>\<open>func dsYCbCrAny\<close>\<close>

definition dsYCbCrAny ::
  "ycbcrImage \<Rightarrow> rectangle \<Rightarrow> nat \<Rightarrow> nat \<Rightarrow> nat \<Rightarrow> nat \<Rightarrow> real list \<Rightarrow> real list option" where
  "dsYCbCrAny src bounds srcW srcH dstW dstH rgba =
     forUpto dstH (\<lambda>dy rgba.
       let (sy0, sy1) = srcSpan dy dstH srcH in
       forUpto dstW (\<lambda>dx rgba. do {
         let (sx0, sx1) = srcSpan dx dstW srcW;
         (rS, gS, bS) \<leftarrow> sumYCbCr src bounds sy0 sy1 sx0 sx1;
         let cnt255 = real ((sy1 - sy0) * (sx1 - sx0)) * 255;
         let inv = 1 / cnt255;
         store4 rgba ((dy * dstW + dx) * 4) (clamp01f (real_of_int (sint rS) * inv))
           (clamp01f (real_of_int (sint gS) * inv)) (clamp01f (real_of_int (sint bS) * inv)) 1
       }) rgba) rgba"

text \<open>\<^verbatim>\<open>func dsYCbCr\<close>\<close>

definition dsYCbCr ::
  "ycbcrImage \<Rightarrow> rectangle \<Rightarrow> nat \<Rightarrow> nat \<Rightarrow> nat \<Rightarrow> nat \<Rightarrow> real list \<Rightarrow> real list option" where
  "dsYCbCr src bounds srcW srcH dstW dstH rgba =
     (case SubsampleRatio src of
        S420 \<Rightarrow> dsYCbCr420 src bounds srcW srcH dstW dstH rgba
      | S422 \<Rightarrow> dsYCbCr422 src bounds srcW srcH dstW dstH rgba
      | _ \<Rightarrow> dsYCbCrAny src bounds srcW srcH dstW dstH rgba)"

text \<open>\<^verbatim>\<open>func dsGray\<close>\<close>

definition dsGray ::
  "pixImage \<Rightarrow> rectangle \<Rightarrow> nat \<Rightarrow> nat \<Rightarrow> nat \<Rightarrow> nat \<Rightarrow> real list \<Rightarrow> real list option" where
  "dsGray src bounds srcW srcH dstW dstH rgba =
     (let bY = minY bounds - minY (Rect src);
          bX = minX bounds - minX (Rect src)
      in forUpto dstH (\<lambda>dy rgba.
           let (sy0, sy1) = srcSpan dy dstH srcH in
           forUpto dstW (\<lambda>dx rgba. do {
             let (sx0, sx1) = srcSpan dx dstW srcW;
             vS \<leftarrow> sumBytes (Pix src) (\<lambda>sy. (bY + int sy) * Stride src + bX + int sx0) 1
                     sy0 sy1 (sx1 - sx0);
             let v = f32 vS / (real ((sy1 - sy0) * (sx1 - sx0)) * 255);
             store4 rgba ((dy * dstW + dx) * 4) v v v 1
           }) rgba) rgba)"

text \<open>The accumulation loops of \<^verbatim>\<open>dsGeneric\<close>: four \<^verbatim>\<open>float32\<close> sums.\<close>

definition sumGeneric ::
  "(int \<Rightarrow> int \<Rightarrow> 32 word \<times> 32 word \<times> 32 word \<times> 32 word) \<Rightarrow> rectangle \<Rightarrow> nat \<Rightarrow> nat \<Rightarrow> nat \<Rightarrow> nat
   \<Rightarrow> real \<times> real \<times> real \<times> real" where
  "sumGeneric atFn bounds sy0 sy1 sx0 sx1 =
     fold (\<lambda>sy acc. fold (\<lambda>sx (rS, gS, bS, aS).
         let (cr, cg, cb, ca) = atFn (minX bounds + int sx) (minY bounds + int sy);
             af = f32 ca / 65535
         in if af > 0
            then (rS + f32 cr / 65535 / af, gS + f32 cg / 65535 / af, bS + f32 cb / 65535 / af,
                  aS + af)
            else (rS, gS, bS, aS + af)) [sx0..<sx1] acc) [sy0..<sy1] (0, 0, 0, 0)"

text \<open>\<^verbatim>\<open>func dsGeneric\<close>\<close>

definition dsGeneric ::
  "(int \<Rightarrow> int \<Rightarrow> 32 word \<times> 32 word \<times> 32 word \<times> 32 word) \<Rightarrow> rectangle \<Rightarrow> nat \<Rightarrow> nat \<Rightarrow> nat \<Rightarrow> nat
   \<Rightarrow> real list \<Rightarrow> real list option" where
  "dsGeneric atFn bounds srcW srcH dstW dstH rgba =
     forUpto dstH (\<lambda>dy rgba.
       let (sy0, sy1) = srcSpan dy dstH srcH in
       forUpto dstW (\<lambda>dx rgba.
         let (sx0, sx1) = srcSpan dx dstW srcW;
             (rS, gS, bS, aS) = sumGeneric atFn bounds sy0 sy1 sx0 sx1;
             inv = 1 / real ((sy1 - sy0) * (sx1 - sx0))
         in store4 rgba ((dy * dstW + dx) * 4) (rS * inv) (gS * inv) (bS * inv) (aS * inv))
       rgba) rgba"

text \<open>\<^verbatim>\<open>func areaDownscale\<close>\<close>

fun areaDownscale ::
  "image \<Rightarrow> rectangle \<Rightarrow> nat \<Rightarrow> nat \<Rightarrow> nat \<Rightarrow> nat \<Rightarrow> real list \<Rightarrow> real list option" where
  "areaDownscale (NRGBA src) bounds srcW srcH dstW dstH rgba =
     dsNRGBA src bounds srcW srcH dstW dstH rgba"
| "areaDownscale (RGBA src) bounds srcW srcH dstW dstH rgba =
     dsRGBA src bounds srcW srcH dstW dstH rgba"
| "areaDownscale (YCbCr src) bounds srcW srcH dstW dstH rgba =
     dsYCbCr src bounds srcW srcH dstW dstH rgba"
| "areaDownscale (Gray src) bounds srcW srcH dstW dstH rgba =
     dsGray src bounds srcW srcH dstW dstH rgba"
| "areaDownscale (Generic r atFn) bounds srcW srcH dstW dstH rgba =
     dsGeneric atFn bounds srcW srcH dstW dstH rgba"

text \<open>\<^verbatim>\<open>func zeroF32(s []float32)\<close>\<close>

definition zeroF32 :: "real list \<Rightarrow> real list option" where
  "zeroF32 s = forUpto (length s) (\<lambda>i s. wr s i 0) s"

text \<open>
  \<^verbatim>\<open>func Encode(img image.Image) []byte\<close>. The buffer \<open>wb\<close> is what \<^verbatim>\<open>wbPool.Get()\<close>
  returns: a buffer some earlier call has put back, with whatever that call left in it,
  or a new one. The result \<^verbatim>\<open>nil\<close> is the empty list. The slice \<^verbatim>\<open>wb.rgba[:n]\<close> shares its
  storage with the buffer, so the buffer passed to \<^verbatim>\<open>assembleHash\<close> holds the filled
  slice in its first \<open>n\<close> places.
\<close>

definition Encode :: "image \<Rightarrow> workBuf \<Rightarrow> byte list option" where
  "Encode img wb =
     (let bounds = Bounds img;
          srcW = maxX bounds - minX bounds;
          srcH = maxY bounds - minY bounds
      in if srcW \<le> 0 \<or> srcH \<le> 0 then Some []
         else do {
           let (dstW, dstH) = thumbDims srcW srcH;
           let n = dstW * dstH * 4;
           s \<leftarrow> (if 0 \<le> n then slice (wb_rgba wb) 0 (nat n) else None);
           s \<leftarrow> zeroF32 s;
           s \<leftarrow> (if srcW \<le> dstW \<and> srcH \<le> dstH
                 then extractPixels img bounds (nat dstW) (nat dstH) s
                 else areaDownscale img bounds (nat srcW) (nat srcH) (nat dstW) (nat dstH) s);
           assembleHash (nat dstW) (nat dstH) (wb\<lparr>wb_rgba := s @ drop (nat n) (wb_rgba wb)\<rparr>) })"

section \<open>The decoder: \<^verbatim>\<open>thumbhash.ts\<close>\<close>

text \<open>
  A JavaScript number that may be NaN is a \<open>real option\<close>, \<open>None\<close> for NaN. NaN arises
  in this module only from reading a typed array or an array past its end
  (\<^verbatim>\<open>undefined\<close>) and using the result in arithmetic, and from \<^verbatim>\<open>0 / 0\<close>. The numbers a
  caller passes (\<^verbatim>\<open>chroma\<close>, \<^verbatim>\<open>avgColor\<close>) are finite.
\<close>

text \<open>\<^verbatim>\<open>Math.round\<close>: the nearest integer, halves rounded up.\<close>

definition jsRound :: "real \<Rightarrow> int" where
  "jsRound x = \<lfloor>x + 1 / 2\<rfloor>"

text \<open>Storing an integer-valued number into a \<^verbatim>\<open>Uint8Array\<close> keeps it modulo 256.\<close>

definition toUint8 :: "int \<Rightarrow> byte" where
  "toUint8 v = word_of_int v"

text \<open>
  \<^verbatim>\<open>hash[i]!\<close> as an operand of a bit operator: past the end the read is
  \<^verbatim>\<open>undefined\<close>, which \<^verbatim>\<open>|\<close>, \<^verbatim>\<open><<\<close>, \<^verbatim>\<open>>>\<close> and \<^verbatim>\<open>&\<close> convert to 0.
\<close>

definition hashByte :: "byte list \<Rightarrow> nat \<Rightarrow> 32 word" where
  "hashByte hash i = (if i < length hash then ucast (hash ! i) else 0)"

text \<open>The errors the specification names. The module has no \<^verbatim>\<open>throw\<close> statement.\<close>

datatype decode_error = TruncatedHash | MalformedBasis

record decoded =
  dw :: nat
  dh :: nat
  drgba :: "byte list"

text \<open>
  The closure \<^verbatim>\<open>readAC(count, offset)\<close>; the mutable \<^verbatim>\<open>offset.value\<close> is passed in and
  returned. The recursion runs the \<^verbatim>\<open>for\<close> loop \<open>count\<close> times.
\<close>

fun readAC_loop :: "byte list \<Rightarrow> nat \<Rightarrow> nat \<Rightarrow> real list \<Rightarrow> nat \<Rightarrow> real list \<times> nat" where
  "readAC_loop hash acOff 0 result offset = (result, offset)"
| "readAC_loop hash acOff (Suc k) result offset =
     (let byteIdx = acOff + offset div 2;
          nibble = (if offset mod 2 = 0 then hashByte hash byteIdx AND 0xf
                    else signed_drop_bit 4 (hashByte hash byteIdx) AND 0xf)
      in readAC_loop hash acOff k
           (result @ [dsub (dmul (ddiv (real (unat nibble)) 15) 2) 1]) (offset + 1))"

definition readAC :: "byte list \<Rightarrow> nat \<Rightarrow> nat \<Rightarrow> nat \<Rightarrow> real list \<times> nat" where
  "readAC hash acOff count offset = readAC_loop hash acOff count [] offset"

text \<open>
  The header parse and the AC unpacking of \<^verbatim>\<open>thumbHashToRGBA\<close> (its lines up to
  \<^verbatim>\<open>const aAC = ...\<close>), one definition for each constant of the source, as a function
  of the hash. \<^verbatim>\<open>header\<close>, \<^verbatim>\<open>header2\<close> and \<^verbatim>\<open>alphaHeader\<close> are int32 values, and \<^verbatim>\<open>>>\<close> is
  the arithmetic shift.
\<close>

definition headerWord :: "byte list \<Rightarrow> 32 word" where
  "headerWord hash = hashByte hash 0 OR push_bit 8 (hashByte hash 1)
                     OR push_bit 16 (hashByte hash 2) OR push_bit 24 (hashByte hash 3)"

definition header2Word :: "byte list \<Rightarrow> 32 word" where
  "header2Word hash = hashByte hash 4 OR push_bit 8 (hashByte hash 5)"

definition dec_lDC :: "byte list \<Rightarrow> real" where
  "dec_lDC hash = ddiv (real (unat (headerWord hash AND 63))) 63"

definition dec_pDC :: "byte list \<Rightarrow> real" where
  "dec_pDC hash = dsub (ddiv (real (unat (signed_drop_bit 6 (headerWord hash) AND 63))) 31) 1"

definition dec_qDC :: "byte list \<Rightarrow> real" where
  "dec_qDC hash = dsub (ddiv (real (unat (signed_drop_bit 12 (headerWord hash) AND 63))) 31) 1"

definition dec_lScale :: "byte list \<Rightarrow> real" where
  "dec_lScale hash = ddiv (real (unat (signed_drop_bit 18 (headerWord hash) AND 31))) 31"

definition dec_hasAlpha :: "byte list \<Rightarrow> bool" where
  "dec_hasAlpha hash = (signed_drop_bit 23 (headerWord hash) AND 1 = 1)"

definition dec_dimFlag :: "byte list \<Rightarrow> nat" where
  "dec_dimFlag hash = unat (signed_drop_bit 24 (headerWord hash) AND 0xf)"

definition dec_isLandscape :: "byte list \<Rightarrow> bool" where
  "dec_isLandscape hash = (signed_drop_bit 28 (headerWord hash) AND 1 = 1)"

definition dec_pScale :: "byte list \<Rightarrow> real" where
  "dec_pScale hash = ddiv (real (unat (header2Word hash AND 63))) 63"

definition dec_qScale :: "byte list \<Rightarrow> real" where
  "dec_qScale hash = ddiv (real (unat (signed_drop_bit 6 (header2Word hash) AND 63))) 63"

definition dec_lLimit :: "byte list \<Rightarrow> nat" where
  "dec_lLimit hash = (if dec_hasAlpha hash then 5 else 7)"

definition dec_lx :: "byte list \<Rightarrow> nat" where
  "dec_lx hash = (if dec_isLandscape hash then dec_lLimit hash else max 1 (dec_dimFlag hash))"

definition dec_ly :: "byte list \<Rightarrow> nat" where
  "dec_ly hash = (if dec_isLandscape hash then max 1 (dec_dimFlag hash) else dec_lLimit hash)"

text \<open>\<^verbatim>\<open>alphaHeader\<close>, \<^verbatim>\<open>aDC\<close>, \<^verbatim>\<open>aScale\<close> and \<^verbatim>\<open>acOffset\<close>: the \<^verbatim>\<open>let\<close> defaults, replaced
  inside \<^verbatim>\<open>if (hasAlpha)\<close>.\<close>

definition alphaHeaderWord :: "byte list \<Rightarrow> 32 word" where
  "alphaHeaderWord hash = hashByte hash 6 OR push_bit 8 (hashByte hash 7)"

definition dec_aDC :: "byte list \<Rightarrow> real" where
  "dec_aDC hash =
     (if dec_hasAlpha hash then ddiv (real (unat (alphaHeaderWord hash AND 15))) 15 else 1.0)"

definition dec_aScale :: "byte list \<Rightarrow> real" where
  "dec_aScale hash =
     (if dec_hasAlpha hash
      then ddiv (real (unat (signed_drop_bit 4 (alphaHeaderWord hash) AND 15))) 15 else 0.0)"

definition dec_acOffset :: "byte list \<Rightarrow> nat" where
  "dec_acOffset hash = (if dec_hasAlpha hash then 8 else 6)"

text \<open>The four calls of \<^verbatim>\<open>readAC\<close> on the shared \<^verbatim>\<open>offset\<close>, which starts at 0; the
  fourth is made only when \<^verbatim>\<open>hasAlpha\<close> holds.\<close>

definition dec_lRead :: "byte list \<Rightarrow> real list \<times> nat" where
  "dec_lRead hash = readAC hash (dec_acOffset hash) (dec_lx hash * dec_ly hash - 1) 0"

definition dec_pRead :: "byte list \<Rightarrow> real list \<times> nat" where
  "dec_pRead hash = readAC hash (dec_acOffset hash) (3 * 3 - 1) (snd (dec_lRead hash))"

definition dec_qRead :: "byte list \<Rightarrow> real list \<times> nat" where
  "dec_qRead hash = readAC hash (dec_acOffset hash) (3 * 3 - 1) (snd (dec_pRead hash))"

definition dec_aRead :: "byte list \<Rightarrow> real list \<times> nat" where
  "dec_aRead hash =
     (if dec_hasAlpha hash
      then readAC hash (dec_acOffset hash) (dec_lx hash * dec_ly hash - 1) (snd (dec_qRead hash))
      else ([], snd (dec_qRead hash)))"

definition dec_lAC :: "byte list \<Rightarrow> real list" where
  "dec_lAC hash = fst (dec_lRead hash)"

definition dec_pAC :: "byte list \<Rightarrow> real list" where
  "dec_pAC hash = fst (dec_pRead hash)"

definition dec_qAC :: "byte list \<Rightarrow> real list" where
  "dec_qAC hash = fst (dec_qRead hash)"

definition dec_aAC :: "byte list \<Rightarrow> real list" where
  "dec_aAC hash = fst (dec_aRead hash)"

text \<open>The number of nibbles \<^verbatim>\<open>thumbHashToRGBA\<close> reads: the final value of
  \<^verbatim>\<open>offset.value\<close>.\<close>

definition nibblesRead :: "byte list \<Rightarrow> nat" where
  "nibblesRead hash = snd (dec_aRead hash)"

text \<open>\<^verbatim>\<open>ac[acIdx]!\<close>: \<^verbatim>\<open>undefined\<close> past the end, NaN once multiplied.\<close>

definition acAt :: "real list \<Rightarrow> nat \<Rightarrow> real option" where
  "acAt ac i = (if i < length ac then Some (ac ! i) else None)"

text \<open>One of the four channel loops of the inverse DCT at pixel \<open>(x, y)\<close>; the state of
  the loops is the running value and \<^verbatim>\<open>acIdx\<close>.\<close>

definition chanSum ::
  "jsMath \<Rightarrow> real \<Rightarrow> real list \<Rightarrow> real \<Rightarrow> nat \<Rightarrow> nat \<Rightarrow> nat \<Rightarrow> nat \<Rightarrow> nat \<Rightarrow> nat \<Rightarrow> real option" where
  "chanSum E dc ac scale nx ny w h x y =
     fst (fold (\<lambda>cy st.
            let fy = Math_cos E (ddiv (dmul (dmul jsPI (real cy)) (dadd (real y) 0.5)) (real h))
            in fold (\<lambda>cx (v, acIdx).
                 if cx = 0 \<and> cy = 0 then (v, acIdx)
                 else let fx = Math_cos E
                                 (ddiv (dmul (dmul jsPI (real cx)) (dadd (real x) 0.5)) (real w))
                      in (do { v' \<leftarrow> v; c \<leftarrow> acAt ac acIdx;
                               Some (dadd v' (dmul (dmul (dmul c scale) fx) fy)) },
                          acIdx + 1))
               [0..<nx] st)
          [0..<ny] (Some dc, 0))"

text \<open>\<^verbatim>\<open>max(0, min(255, round(v * 255)))\<close> stored into the \<^verbatim>\<open>Uint8Array\<close>; NaN is stored as 0.\<close>

definition chanByte :: "real option \<Rightarrow> byte" where
  "chanByte v = (case v of None \<Rightarrow> 0
                 | Some x \<Rightarrow> toUint8 (max 0 (min 255 (jsRound (dmul x 255)))))"

text \<open>The values \<^verbatim>\<open>r\<close>, \<^verbatim>\<open>g\<close>, \<^verbatim>\<open>b\<close> and \<^verbatim>\<open>a\<close> of the loop body at pixel \<open>(x, y)\<close>, and the four
  bytes stored for them.\<close>

definition pixelValues ::
  "jsMath \<Rightarrow> byte list \<Rightarrow> nat \<Rightarrow> nat \<Rightarrow> nat \<Rightarrow> nat \<Rightarrow> real option list" where
  "pixelValues E hash w h x y =
     (let l = chanSum E (dec_lDC hash) (dec_lAC hash) (dec_lScale hash) (dec_lx hash)
                (dec_ly hash) w h x y;
          p = chanSum E (dec_pDC hash) (dec_pAC hash) (dec_pScale hash) 3 3 w h x y;
          q = chanSum E (dec_qDC hash) (dec_qAC hash) (dec_qScale hash) 3 3 w h x y;
          a = (if dec_hasAlpha hash
               then chanSum E (dec_aDC hash) (dec_aAC hash) (dec_aScale hash)
                      (dec_lx hash) (dec_ly hash) w h x y
               else Some (dec_aDC hash));
          b = do { l' \<leftarrow> l; p' \<leftarrow> p; Some (dsub l' (dmul (ddiv 2 3) p')) };
          r = do { l' \<leftarrow> l; b' \<leftarrow> b; q' \<leftarrow> q;
                   Some (ddiv (dadd (dsub (dmul 3 l') b') q') 2) };
          g = do { r' \<leftarrow> r; q' \<leftarrow> q; Some (dsub r' q') }
      in [r, g, b, a])"

definition decodePixel :: "jsMath \<Rightarrow> byte list \<Rightarrow> nat \<Rightarrow> nat \<Rightarrow> nat \<Rightarrow> nat \<Rightarrow> byte list" where
  "decodePixel E hash w h x y = map chanByte (pixelValues E hash w h x y)"

text \<open>The four stores \<^verbatim>\<open>rgba[idx + 0..3] = ...\<close>; a store past the end of a typed array
  is ignored, as a list update past the end is.\<close>

definition storePixel :: "byte list \<Rightarrow> nat \<Rightarrow> byte list \<Rightarrow> byte list" where
  "storePixel rgba idx px =
     rgba[idx := px ! 0, idx + 1 := px ! 1, idx + 2 := px ! 2, idx + 3 := px ! 3]"

text \<open>\<^verbatim>\<open>function attenuateChroma(rgba, c)\<close>. The body of the loop at index \<open>i\<close>: when
  \<open>i + 2\<close> is past the end a channel read is \<^verbatim>\<open>undefined\<close>, \<open>y\<close> is NaN and the stores
  that are in range store 0.\<close>

definition attenuateAt :: "real \<Rightarrow> byte list \<Rightarrow> nat \<Rightarrow> byte list" where
  "attenuateAt cc rgba i =
     (if i + 2 < length rgba then
        let r = real (unat (rgba ! i));
            g = real (unat (rgba ! (i + 1)));
            b = real (unat (rgba ! (i + 2)));
            y = dadd (dadd (dmul (rnd64 0.2126) r) (dmul (rnd64 0.7152) g))
                  (dmul (rnd64 0.0722) b)
        in rgba[i := toUint8 (jsRound (dadd y (dmul (dsub r y) cc))),
                i + 1 := toUint8 (jsRound (dadd y (dmul (dsub g y) cc))),
                i + 2 := toUint8 (jsRound (dadd y (dmul (dsub b y) cc)))]
      else rgba[i := 0, i + 1 := 0, i + 2 := 0])"

text \<open>The loop \<^verbatim>\<open>for (let i = 0, len = rgba.length; i < len; i += 4)\<close> visits
  \<open>i = 4 * k\<close> for \<open>k < \<lceil>len / 4\<rceil>\<close>.\<close>

definition attenuateChroma :: "byte list \<Rightarrow> real \<Rightarrow> byte list" where
  "attenuateChroma rgba c =
     (let cc = max 0 c
      in fold (\<lambda>k buf. attenuateAt cc buf (4 * k)) [0..<(length rgba + 3) div 4] rgba)"

text \<open>\<^verbatim>\<open>function thumbHashToRGBA(hash, chroma?)\<close> up to its comment
  \<^verbatim>\<open>// Chroma attenuation\<close>: the parse, the output size and the inverse DCT.\<close>

definition dec_ratio :: "byte list \<Rightarrow> real" where
  "dec_ratio hash =
     (if dec_isLandscape hash
      then (if dec_lx hash > dec_ly hash then ddiv (real (dec_lx hash)) (real (dec_ly hash))
            else 1)
      else (if dec_ly hash > dec_lx hash then ddiv (real (dec_ly hash)) (real (dec_lx hash))
            else 1))"

definition dec_w :: "byte list \<Rightarrow> nat" where
  "dec_w hash = nat (jsRound (if dec_isLandscape hash then 32 else ddiv 32 (dec_ratio hash)))"

definition dec_h :: "byte list \<Rightarrow> nat" where
  "dec_h hash = nat (jsRound (if dec_isLandscape hash then ddiv 32 (dec_ratio hash) else 32))"

definition renderRaw :: "jsMath \<Rightarrow> byte list \<Rightarrow> decoded" where
  "renderRaw E hash =
     (let w = dec_w hash;
          h = dec_h hash;
          rgba = fold (\<lambda>y buf.
                   fold (\<lambda>x buf. storePixel buf ((y * w + x) * 4) (decodePixel E hash w h x y))
                     [0..<w] buf)
                 [0..<h] (replicate (w * h * 4) 0)
      in \<lparr>dw = w, dh = h, drgba = rgba\<rparr>)"

text \<open>\<^verbatim>\<open>function thumbHashToRGBA(hash, chroma?)\<close>. An omitted \<^verbatim>\<open>chroma\<close> is \<open>None\<close>;
  the function has no failing path, so every result is \<open>Inr\<close>.\<close>

definition thumbHashToRGBA :: "jsMath \<Rightarrow> byte list \<Rightarrow> real option \<Rightarrow> decode_error + decoded" where
  "thumbHashToRGBA E hash chroma =
     (let d = renderRaw E hash;
          rgba = (case chroma of
                    None \<Rightarrow> drgba d
                  | Some c \<Rightarrow> if c < 1 then attenuateChroma (drgba d) c else drgba d)
      in Inr (d\<lparr>drgba := rgba\<rparr>))"

text \<open>\<^verbatim>\<open>function computeAvgRGB(rgba, n)\<close>. A channel's average is NaN when \<open>n = 0\<close>
  (\<^verbatim>\<open>0 / 0\<close>) or when the last index read for it is past the end.\<close>

definition avgChan :: "byte list \<Rightarrow> nat \<Rightarrow> nat \<Rightarrow> real option" where
  "avgChan rgba n c =
     (if n = 0 \<or> (n - 1) * 4 + c \<ge> length rgba then None
      else Some (ddiv (fold (\<lambda>k s. dadd s (real (unat (rgba ! (4 * k + c))))) [0..<n] 0)
                   (real n)))"

definition computeAvgRGB :: "byte list \<Rightarrow> nat \<Rightarrow> real option list" where
  "computeAvgRGB rgba n = [avgChan rgba n 0, avgChan rgba n 1, avgChan rgba n 2]"

text \<open>\<^verbatim>\<open>target[k]!\<close> of a number array: \<^verbatim>\<open>undefined\<close>, hence NaN, past the end.\<close>

definition numAt :: "real list \<Rightarrow> nat \<Rightarrow> real option" where
  "numAt xs k = (if k < length xs then Some (xs ! k) else None)"

text \<open>One store \<^verbatim>\<open>rgba[i] = max(0, min(255, round(rgba[i]! + d)))\<close> of
  \<^verbatim>\<open>applyBiasCorrection\<close>.\<close>

definition biasStore :: "real option \<Rightarrow> byte list \<Rightarrow> nat \<Rightarrow> byte list" where
  "biasStore d rgba i =
     rgba[i := (case d of None \<Rightarrow> 0
                | Some d' \<Rightarrow>
                    toUint8 (max 0 (min 255 (jsRound (dadd (real (unat (rgba ! i))) d')))))]"

text \<open>\<^verbatim>\<open>function applyBiasCorrection(rgba, n, target, gain)\<close>\<close>

definition applyBiasCorrection :: "byte list \<Rightarrow> nat \<Rightarrow> real list \<Rightarrow> real \<Rightarrow> byte list" where
  "applyBiasCorrection rgba n target gain =
     (let avg = computeAvgRGB rgba n;
          dr = do { t \<leftarrow> numAt target 0; a \<leftarrow> avg ! 0; Some (dmul (dsub t a) gain) };
          dg = do { t \<leftarrow> numAt target 1; a \<leftarrow> avg ! 1; Some (dmul (dsub t a) gain) };
          db = do { t \<leftarrow> numAt target 2; a \<leftarrow> avg ! 2; Some (dmul (dsub t a) gain) }
      in fold (\<lambda>k buf. biasStore db (biasStore dg (biasStore dr buf (4 * k)) (4 * k + 1))
                          (4 * k + 2))
           [0..<n] rgba)"

text \<open>
  \<^verbatim>\<open>function thumbHashToDataURL(hash, chroma?, avgColor?)\<close> up to its call of
  \<^verbatim>\<open>rgbaToBmpDataURL(w, h, rgba)\<close>: the value is the bitmap handed to the BMP encoder.
  A comparison with NaN is false, so a NaN distance selects 0.28.
\<close>

definition adaptiveChroma :: "real option \<Rightarrow> real" where
  "adaptiveChroma dis =
     (case dis of None \<Rightarrow> rnd64 0.28
      | Some d \<Rightarrow> if d < 20 then rnd64 0.55 else if d < 45 then rnd64 0.40 else rnd64 0.28)"

definition thumbHashToDataURL_bitmap ::
  "jsMath \<Rightarrow> byte list \<Rightarrow> real option \<Rightarrow> real list option \<Rightarrow> decode_error + decoded" where
  "thumbHashToDataURL_bitmap E hash chroma avgColor =
     (case avgColor of
        Some t \<Rightarrow>
          if length t \<ge> 3 then
            (case thumbHashToRGBA E hash None of
               Inl e \<Rightarrow> Inl e
             | Inr d \<Rightarrow>
                 let n = dw d * dh d;
                     phAvg = computeAvgRGB (drgba d) n;
                     dis = do { a0 \<leftarrow> phAvg ! 0; a1 \<leftarrow> phAvg ! 1; a2 \<leftarrow> phAvg ! 2;
                                 Some (Math_sqrt E
                                   (dadd (dadd (Num_pow E (dsub a0 (t ! 0)) 2)
                                               (Num_pow E (dsub a1 (t ! 1)) 2))
                                         (Num_pow E (dsub a2 (t ! 2)) 2))) };
                     ac = adaptiveChroma dis;
                     rgba = (if ac < 1 then attenuateChroma (drgba d) ac else drgba d);
                     rgba = applyBiasCorrection rgba n t (rnd64 0.45)
                 in Inr (d\<lparr>drgba := rgba\<rparr>))
          else thumbHashToRGBA E hash chroma
      | None \<Rightarrow> thumbHashToRGBA E hash chroma)"

section \<open>The adaptive post-processing in the words of the specification\<close>

text \<open>
  The steps of the specification's adaptive chroma and bias correction, stated on the
  list of pixels of a bitmap instead of on the byte buffer the code updates in place.
  A pixel is its four bytes; a channel value is the number the byte holds. The results
  are bytes again, so each new channel value is rounded to the nearest integer, as the
  code does with \<^verbatim>\<open>Math.round\<close>. The arithmetic is that of JavaScript numbers: sums are
  taken from the first pixel to the last, \<open>Y\<close> from its red term to its blue term.
\<close>

type_synonym pixel = "byte \<times> byte \<times> byte \<times> byte"

fun pixels :: "byte list \<Rightarrow> pixel list" where
  "pixels (r # g # b # a # rest) = (r, g, b, a) # pixels rest"
| "pixels _ = []"

definition flatten :: "pixel list \<Rightarrow> byte list" where
  "flatten px = concat (map (\<lambda>(r, g, b, a). [r, g, b, a]) px)"

definition chanR :: "pixel \<Rightarrow> real" where
  "chanR = (\<lambda>(r, g, b, a). real (unat r))"

definition chanG :: "pixel \<Rightarrow> real" where
  "chanG = (\<lambda>(r, g, b, a). real (unat g))"

definition chanB :: "pixel \<Rightarrow> real" where
  "chanB = (\<lambda>(r, g, b, a). real (unat b))"

text \<open>The mean of one channel over all pixels.\<close>

definition specMean :: "(pixel \<Rightarrow> real) \<Rightarrow> pixel list \<Rightarrow> real" where
  "specMean ch px = ddiv (fold (\<lambda>v s. dadd s v) (map ch px) 0) (real (length px))"

text \<open>BT.709 attenuation of one pixel: \<open>Y = 0.2126 R + 0.7152 G + 0.0722 B\<close>, each channel
  replaced by \<open>round (Y + (C - Y) * chroma)\<close>.\<close>

definition specAttenuate :: "real \<Rightarrow> pixel \<Rightarrow> pixel" where
  "specAttenuate c px =
     (let y = dadd (dadd (dmul (rnd64 0.2126) (chanR px)) (dmul (rnd64 0.7152) (chanG px)))
                (dmul (rnd64 0.0722) (chanB px))
      in (toUint8 (jsRound (dadd y (dmul (dsub (chanR px) y) c))),
          toUint8 (jsRound (dadd y (dmul (dsub (chanG px) y) c))),
          toUint8 (jsRound (dadd y (dmul (dsub (chanB px) y) c))),
          snd (snd (snd px))))"

text \<open>Adding a per-channel offset to a pixel, clamped to \<open>[0, 255]\<close>.\<close>

definition clampByte255 :: "real \<Rightarrow> byte" where
  "clampByte255 v = toUint8 (max 0 (min 255 (jsRound v)))"

definition specBias :: "real \<Rightarrow> real \<Rightarrow> real \<Rightarrow> pixel \<Rightarrow> pixel" where
  "specBias dr dg db px =
     (clampByte255 (dadd (chanR px) dr), clampByte255 (dadd (chanG px) dg),
      clampByte255 (dadd (chanB px) db), snd (snd (snd px)))"

text \<open>Steps 2 to 7 of the specification's adaptive path, for raw pixels \<open>px\<close> and target
  mean \<open>(tr, tg, tb)\<close>.\<close>

definition specAdaptive :: "jsMath \<Rightarrow> pixel list \<Rightarrow> real \<Rightarrow> real \<Rightarrow> real \<Rightarrow> pixel list" where
  "specAdaptive E px tr tg tb =
     (let mr = specMean chanR px; mg = specMean chanG px; mb = specMean chanB px;
          d = Math_sqrt E (dadd (dadd (Num_pow E (dsub mr tr) 2) (Num_pow E (dsub mg tg) 2))
                                (Num_pow E (dsub mb tb) 2));
          ac = (if d < 20 then rnd64 0.55 else if d < 45 then rnd64 0.40 else rnd64 0.28);
          att = map (specAttenuate ac) px;
          mr' = specMean chanR att; mg' = specMean chanG att; mb' = specMean chanB att
      in map (specBias (dmul (dsub tr mr') (rnd64 0.45)) (dmul (dsub tg mg') (rnd64 0.45))
                       (dmul (dsub tb mb') (rnd64 0.45))) att)"

text \<open>The clamp of the decoder in the words of the specification: a channel value \<open>v\<close> is
  stored as \<open>round (255 v)\<close>, as 0 below the range and as 255 above it; NaN is stored
  as 0.\<close>

definition specClamp :: "real option \<Rightarrow> int" where
  "specClamp v = (case v of None \<Rightarrow> 0
                  | Some t \<Rightarrow> if jsRound (dmul t 255) < 0 then 0
                              else if jsRound (dmul t 255) > 255 then 255
                              else jsRound (dmul t 255))"

text \<open>Rounding to nearest with halves away from zero, as a relation between a real and
  an integer: \<open>n\<close> is as near to \<open>x\<close> as any integer and, when \<open>x\<close> lies halfway between two
  integers, \<open>n\<close> is the one of larger magnitude.\<close>

definition halfAway :: "real \<Rightarrow> int \<Rightarrow> bool" where
  "halfAway x n \<longleftrightarrow>
     \<bar>of_int n - x\<bar> \<le> 1 / 2 \<and> (\<bar>of_int n - x\<bar> < 1 / 2 \<or> \<bar>x\<bar> < \<bar>of_int n\<bar>)"

section \<open>Predicates on the proxy\<close>

text \<open>A proxy of \<open>count\<close> pixels whose RGBA floats lie in \<open>[0, 1]\<close>.\<close>

definition proxy01 :: "nat \<Rightarrow> real list \<Rightarrow> bool" where
  "proxy01 count rgba \<longleftrightarrow>
     length rgba = count * 4 \<and> (\<forall>j < count * 4. 0 \<le> rgba ! j \<and> rgba ! j \<le> 1)"

text \<open>The ranges of the four channels after the conversion to LPQA.\<close>

definition lpqaRange :: "nat \<Rightarrow> real list \<Rightarrow> bool" where
  "lpqaRange count buf \<longleftrightarrow>
     (\<forall>k < count. 0 \<le> buf ! (k * 4) \<and> buf ! (k * 4) \<le> 1
        \<and> \<bar>buf ! (k * 4 + 1)\<bar> \<le> 1 \<and> \<bar>buf ! (k * 4 + 2)\<bar> \<le> 1
        \<and> 0 \<le> buf ! (k * 4 + 3) \<and> buf ! (k * 4 + 3) \<le> 1)"

text \<open>The value the encoder stores at index \<open>j\<close> of a cosine table of row length \<open>w\<close>.\<close>

definition cosEntry :: "nat \<Rightarrow> nat \<Rightarrow> real" where
  "cosEntry w j = cos (pi * real (j div w) / real w * (real (j mod w) + 0.5))"

text \<open>Channel \<open>c\<close> of \<open>n\<close> interleaved pixels is bounded by 1 in magnitude, or is
  non-negative.\<close>

definition chanBounded :: "real list \<Rightarrow> nat \<Rightarrow> nat \<Rightarrow> bool" where
  "chanBounded data n c \<longleftrightarrow> (\<forall>k < n. \<bar>data ! (k * 4 + c)\<bar> \<le> 1)"

definition chanNonneg :: "real list \<Rightarrow> nat \<Rightarrow> nat \<Rightarrow> bool" where
  "chanNonneg data n c \<longleftrightarrow> (\<forall>k < n. 0 \<le> data ! (k * 4 + c))"

text \<open>The entries \<open>base, ..., base + n - 1\<close> of a table are bounded by 1 in magnitude, or
  are non-negative.\<close>

definition tblBounded :: "real list \<Rightarrow> nat \<Rightarrow> nat \<Rightarrow> bool" where
  "tblBounded tbl base n \<longleftrightarrow> (\<forall>x < n. \<bar>tbl ! (base + x)\<bar> \<le> 1)"

definition tblNonneg :: "real list \<Rightarrow> nat \<Rightarrow> nat \<Rightarrow> bool" where
  "tblNonneg tbl base n \<longleftrightarrow> (\<forall>x < n. 0 \<le> tbl ! (base + x))"

text \<open>Two states of the loops of \<^verbatim>\<open>encodeChan\<close> that agree on \<open>dc\<close>, \<open>acMax\<close>, \<open>idx\<close> and
  on \<open>dst[:idx]\<close>.\<close>

definition sameUpto :: "real \<times> real \<times> nat \<times> real list \<Rightarrow> real \<times> real \<times> nat \<times> real list \<Rightarrow> bool" where
  "sameUpto s t = (case (s, t) of ((dc, am, idx, d), (dc', am', idx', d')) \<Rightarrow>
      dc = dc' \<and> am = am' \<and> idx = idx' \<and> length d = length d' \<and> take idx d = take idx d')"

text \<open>The ranges of the basis dimensions.\<close>

definition dimsOK :: "bool \<Rightarrow> nat \<times> nat \<times> nat \<times> nat \<times> nat \<times> nat \<Rightarrow> bool" where
  "dimsOK hasAlpha dims = (case dims of (lx, ly, px, py, ax, ay) \<Rightarrow>
     1 \<le> lx \<and> lx \<le> (if hasAlpha then 5 else 7) \<and> 1 \<le> ly \<and> ly \<le> (if hasAlpha then 5 else 7)
     \<and> 1 \<le> px \<and> px \<le> 3 \<and> 1 \<le> py \<and> py \<le> 3
     \<and> (if hasAlpha then 1 \<le> ax \<and> ax \<le> 5 \<and> 1 \<le> ay \<and> ay \<le> 5 else ax = 0 \<and> ay = 0))"

text \<open>The values handed to the bit packer have the basis dimensions \<open>dims\<close> and AC
  vectors of the matching lengths.\<close>

definition channelsShape :: "bool \<Rightarrow> nat \<times> nat \<times> nat \<times> nat \<times> nat \<times> nat \<Rightarrow> channels \<Rightarrow> bool" where
  "channelsShape hasAlpha dims e \<longleftrightarrow>
     e_hasAlpha e = hasAlpha
     \<and> (e_lx e, e_ly e, e_px e, e_py e, e_ax e, e_ay e) = dims
     \<and> length (e_lAC e) = e_lx e * e_ly e - 1
     \<and> length (e_pAC e) = e_px e * e_py e - 1
     \<and> length (e_qAC e) = e_px e * e_py e - 1
     \<and> length (e_aAC e) = (if hasAlpha then e_ax e * e_ay e - 1 else 0)"

text \<open>The ranges of the DC values and scales of channels computed from a proxy in
  \<open>[0, 1]\<close>.\<close>

definition channelsRange :: "channels \<Rightarrow> bool" where
  "channelsRange e \<longleftrightarrow>
     0 \<le> e_lDC e \<and> e_lDC e \<le> 1 \<and> \<bar>e_pDC e\<bar> \<le> 1 \<and> \<bar>e_qDC e\<bar> \<le> 1
     \<and> 0 \<le> e_aDC e \<and> e_aDC e \<le> 1
     \<and> 0 \<le> e_lScale e \<and> e_lScale e \<le> 1 \<and> 0 \<le> e_pScale e \<and> e_pScale e \<le> 1
     \<and> 0 \<le> e_qScale e \<and> e_qScale e \<le> 1 \<and> 0 \<le> e_aScale e \<and> e_aScale e \<le> 1"

text \<open>The channel encoding of \<^verbatim>\<open>assembleHash\<close> run on freshly allocated, zeroed cosine
  tables and AC slices instead of the pooled work buffer.\<close>

definition encodeFresh ::
  "nat \<Rightarrow> nat \<Rightarrow> bool \<Rightarrow> nat \<times> nat \<times> nat \<times> nat \<times> nat \<times> nat \<Rightarrow> real list \<Rightarrow> channels option" where
  "encodeFresh w h hasAlpha dims rgba = (case dims of (lx, ly, px, py, ax, ay) \<Rightarrow> do {
     let maxNx = (if hasAlpha then imax (imax lx px) ax else imax lx px);
     let maxNy = (if hasAlpha then imax (imax ly py) ay else imax ly py);
     let cosX = map (cosEntry w) [0..<maxNx * w];
     let cosY = map (cosEntry h) [0..<maxNy * h];
     (lScale, lDC, lAC) \<leftarrow> encodeChan rgba 0 4 w h lx ly cosX cosY (replicate (lx * ly - 1) 0);
     (pScale, pDC, pAC) \<leftarrow> encodeChan rgba 1 4 w h px py cosX cosY (replicate (px * py - 1) 0);
     (qScale, qDC, qAC) \<leftarrow> encodeChan rgba 2 4 w h px py cosX cosY (replicate (px * py - 1) 0);
     (aScale, aDC, aAC) \<leftarrow> (if hasAlpha
          then encodeChan rgba 3 4 w h ax ay cosX cosY (replicate (ax * ay - 1) 0)
          else Some (0, 0, []));
     Some \<lparr>e_hasAlpha = hasAlpha, e_lx = lx, e_ly = ly, e_px = px, e_py = py,
            e_ax = ax, e_ay = ay, e_lScale = lScale, e_lDC = lDC, e_pScale = pScale,
            e_pDC = pDC, e_qScale = qScale, e_qDC = qDC, e_aScale = aScale, e_aDC = aDC,
            e_lAC = lAC, e_pAC = pAC, e_qAC = qAC, e_aAC = aAC\<rparr> })"

text \<open>\<^verbatim>\<open>assembleHash\<close> up to the bit packer, run on the proxy slice \<open>rgba\<close> with freshly
  allocated cosine tables and AC slices.\<close>

definition transformFresh :: "nat \<Rightarrow> nat \<Rightarrow> real list \<Rightarrow> channels option" where
  "transformFresh w h rgba = do {
     avgA \<leftarrow> avgAlpha (w * h) rgba;
     lpqa \<leftarrow> toLPQA (w * h) rgba;
     encodeFresh w h (avgA < 1) (basisDims w h (avgA < 1)) lpqa }"

text \<open>\<^verbatim>\<open>totalAC\<close> and \<^verbatim>\<open>hashLen\<close> of \<^verbatim>\<open>assembleHash\<close> as functions of \<^verbatim>\<open>hasAlpha\<close> and the basis
  dimensions.\<close>

definition totalAC :: "bool \<Rightarrow> nat \<times> nat \<times> nat \<times> nat \<times> nat \<times> nat \<Rightarrow> nat" where
  "totalAC hasAlpha dims = (case dims of (lx, ly, px, py, ax, ay) \<Rightarrow>
     (lx * ly - 1) + (px * py - 1) + (px * py - 1) + (if hasAlpha then ax * ay - 1 else 0))"

definition hashLen :: "bool \<Rightarrow> nat \<times> nat \<times> nat \<times> nat \<times> nat \<times> nat \<Rightarrow> nat" where
  "hashLen hasAlpha dims = (if hasAlpha then 8 else 6) + (totalAC hasAlpha dims + 1) div 2"

text \<open>The bytes \<^verbatim>\<open>assembleHash\<close> writes in front of the AC nibbles.\<close>

definition headerBytes :: "nat \<Rightarrow> nat \<Rightarrow> channels \<Rightarrow> byte list" where
  "headerBytes w h e =
     [ucast (encHeader w h e), ucast (drop_bit 8 (encHeader w h e)),
      ucast (drop_bit 16 (encHeader w h e)), ucast (drop_bit 24 (encHeader w h e)),
      ucast (encHeader2 e), ucast (drop_bit 8 (encHeader2 e))]
     @ (if e_hasAlpha e then [ucast (encAlphaHdr e), ucast (drop_bit 8 (encAlphaHdr e))] else [])"

text \<open>\<^verbatim>\<open>Encode\<close> run on a freshly allocated, zeroed proxy slice, cosine tables and AC
  slices instead of the pooled work buffer: a function of the image alone.\<close>

definition EncodeFresh :: "image \<Rightarrow> byte list option" where
  "EncodeFresh img =
     (let bounds = Bounds img;
          srcW = maxX bounds - minX bounds;
          srcH = maxY bounds - minY bounds
      in if srcW \<le> 0 \<or> srcH \<le> 0 then Some []
         else do {
           let (dstW, dstH) = thumbDims srcW srcH;
           let s = replicate (nat (dstW * dstH * 4)) 0;
           s \<leftarrow> (if srcW \<le> dstW \<and> srcH \<le> dstH
                 then extractPixels img bounds (nat dstW) (nat dstH) s
                 else areaDownscale img bounds (nat srcW) (nat srcH) (nat dstW) (nat dstH) s);
           e \<leftarrow> transformFresh (nat dstW) (nat dstH) s;
           packHash (nat dstW) (nat dstH) e })"

section \<open>Concrete inputs\<close>

text \<open>A work buffer as \<^verbatim>\<open>new(workBuf)\<close> allocates it, all zero, and the buffer whose proxy
  region starts with the floats \<open>rgba\<close>.\<close>

definition wbZero :: workBuf where
  "wbZero = \<lparr>wb_rgba = replicate (100 * 100 * 4) 0, wb_cosX = replicate (8 * 100) 0,
             wb_cosY = replicate (8 * 100) 0, wb_ac = replicate 128 0\<rparr>"

definition proxyBuf :: "real list \<Rightarrow> workBuf" where
  "proxyBuf rgba = wbZero\<lparr>wb_rgba := rgba @ drop (length rgba) (wb_rgba wbZero)\<rparr>"

text \<open>\<^verbatim>\<open>image.NewNRGBA(image.Rect(0, 0, 1, 1))\<close> with an opaque red pixel;
  \<^verbatim>\<open>image.NewNRGBA(image.Rect(0, 0, 2, 1))\<close> with an opaque red and an opaque blue pixel,
  and with an opaque white and a transparent pixel.\<close>

definition img1x1 :: image where
  "img1x1 = NRGBA \<lparr>Pix = [255, 0, 0, 255], Stride = 4,
                   Rect = \<lparr>minX = 0, minY = 0, maxX = 1, maxY = 1\<rparr>\<rparr>"

definition img2x1 :: image where
  "img2x1 = NRGBA \<lparr>Pix = [255, 0, 0, 255, 0, 0, 255, 255], Stride = 8,
                   Rect = \<lparr>minX = 0, minY = 0, maxX = 2, maxY = 1\<rparr>\<rparr>"

definition imgAlpha2x1 :: image where
  "imgAlpha2x1 = NRGBA \<lparr>Pix = [255, 255, 255, 255, 0, 0, 0, 0], Stride = 8,
                        Rect = \<lparr>minX = 0, minY = 0, maxX = 2, maxY = 1\<rparr>\<rparr>"

text \<open>Channel values whose DC values and scales are all one half, for an opaque square
  proxy.\<close>

definition chanHalf :: channels where
  "chanHalf = \<lparr>e_hasAlpha = False, e_lx = 7, e_ly = 7, e_px = 3, e_py = 3, e_ax = 0, e_ay = 0,
                e_lScale = 1 / 2, e_lDC = 1 / 2, e_pScale = 1 / 2, e_pDC = 1 / 2,
                e_qScale = 1 / 2, e_qDC = 1 / 2, e_aScale = 0, e_aDC = 0,
                e_lAC = [], e_pAC = [], e_qAC = [], e_aAC = []\<rparr>"

text \<open>An engine whose \<^verbatim>\<open>Math.cos\<close> and \<^verbatim>\<open>Math.sqrt\<close> are correctly rounded, and whose \<^verbatim>\<open>**\<close> is
  correctly rounded for an exponent that is a natural number.\<close>

definition jsExact :: jsMath where
  "jsExact = \<lparr>Math_cos = (\<lambda>x. rnd64 (cos x)), Math_sqrt = (\<lambda>x. rnd64 (sqrt x)),
              Num_pow = (\<lambda>x y. rnd64 (x ^ nat \<lfloor>y\<rfloor>))\<rparr>"


section \<open>Rounding\<close>

lemma roundHalfEven_of_int: "roundHalfEven (of_int k) = k"
  by (simp add: roundHalfEven_def)

lemma roundHalfEven_bounds:
  "x - 1 / 2 \<le> of_int (roundHalfEven x)" "of_int (roundHalfEven x) \<le> x + 1 / 2"
proof -
  have a: "of_int \<lfloor>x\<rfloor> \<le> x" "x < of_int \<lfloor>x\<rfloor> + 1" by linarith+
  have c: "roundHalfEven x = \<lfloor>x\<rfloor> \<and> x - of_int \<lfloor>x\<rfloor> \<le> 1 / 2
           \<or> roundHalfEven x = \<lfloor>x\<rfloor> + 1 \<and> x - of_int \<lfloor>x\<rfloor> \<ge> 1 / 2"
    by (auto simp: roundHalfEven_def)
  from c show "x - 1 / 2 \<le> of_int (roundHalfEven x)"
  proof (elim disjE conjE)
    assume r: "roundHalfEven x = \<lfloor>x\<rfloor>" and "x - of_int \<lfloor>x\<rfloor> \<le> 1 / 2"
    then show ?thesis unfolding r by linarith
  next
    assume r: "roundHalfEven x = \<lfloor>x\<rfloor> + 1" and "x - of_int \<lfloor>x\<rfloor> \<ge> 1 / 2"
    then show ?thesis unfolding r using a by simp linarith
  qed
  from c show "of_int (roundHalfEven x) \<le> x + 1 / 2"
  proof (elim disjE conjE)
    assume r: "roundHalfEven x = \<lfloor>x\<rfloor>" and "x - of_int \<lfloor>x\<rfloor> \<le> 1 / 2"
    then show ?thesis unfolding r using a by linarith
  next
    assume r: "roundHalfEven x = \<lfloor>x\<rfloor> + 1" and "x - of_int \<lfloor>x\<rfloor> \<ge> 1 / 2"
    then show ?thesis unfolding r by simp
  qed
qed

lemma roundHalfEven_mono:
  assumes "x \<le> y"
  shows "roundHalfEven x \<le> roundHalfEven y"
proof (cases "x = y")
  case True
  then show ?thesis by simp
next
  case False
  then have "x < y" using assms by simp
  then have "real_of_int (roundHalfEven x) < of_int (roundHalfEven y) + 1"
    using roundHalfEven_bounds(2) [of x] roundHalfEven_bounds(1) [of y] by linarith
  then show ?thesis by linarith
qed

lemma fround_0: "fround p emin 0 = 0"
  by (simp add: fround_def)

lemma powi2_less_D: "(2 :: real) powi m < 2 powi n \<Longrightarrow> m < n"
  using power_int_increasing [of n m "2 :: real"] by (cases "m < n") auto

lemma powi2_le_D: "(2 :: real) powi m \<le> 2 powi n \<Longrightarrow> m \<le> n"
  using power_int_strict_increasing [of n m "2 :: real"] by (cases "m \<le> n") auto

lemma powi2_pos: "0 < (2 :: real) powi n"
  by (simp add: zero_less_power_int)

text \<open>The binade of a positive number.\<close>

lemma floor_log2:
  assumes "0 < x"
  shows "2 powi \<lfloor>log 2 x\<rfloor> \<le> x" "x < 2 powi (\<lfloor>log 2 x\<rfloor> + 1)"
proof -
  have "2 powr real_of_int \<lfloor>log 2 x\<rfloor> \<le> x \<and> x < 2 powr real_of_int (\<lfloor>log 2 x\<rfloor> + 1)"
    using floor_log_eq_powr_iff [of x 2 "\<lfloor>log 2 x\<rfloor>"] assms by simp
  moreover have "(2 :: real) powr real_of_int \<lfloor>log 2 x\<rfloor> = 2 powi \<lfloor>log 2 x\<rfloor>"
    "(2 :: real) powr real_of_int (\<lfloor>log 2 x\<rfloor> + 1) = 2 powi (\<lfloor>log 2 x\<rfloor> + 1)"
    by (rule powr_real_of_int'; simp)+
  ultimately show "2 powi \<lfloor>log 2 x\<rfloor> \<le> x" "x < 2 powi (\<lfloor>log 2 x\<rfloor> + 1)"
    by (simp_all only:)
qed

lemma floor_log2_eq:
  assumes "2 powi k \<le> x" "x < 2 powi (k + 1)"
  shows "\<lfloor>log 2 x\<rfloor> = k"
proof -
  have x: "0 < x" using assms(1) powi2_pos [of k] by linarith
  have "(2 :: real) powr real_of_int k = 2 powi k"
    "(2 :: real) powr real_of_int (k + 1) = 2 powi (k + 1)"
    by (rule powr_real_of_int'; simp)+
  then have "2 powr real_of_int k \<le> x \<and> x < 2 powr real_of_int (k + 1)"
    using assms by (simp only:)
  then show ?thesis
    using floor_log_eq_powr_iff [of x 2 k] x by simp
qed

lemma floor_log2_mono:
  assumes "0 < x" "x \<le> y"
  shows "\<lfloor>log 2 x\<rfloor> \<le> \<lfloor>log 2 y\<rfloor>"
  using assms by (intro floor_mono log_mono) simp_all

lemma fround_pos_eq:
  assumes "0 < x"
  shows "fround p emin x
         = of_int (roundHalfEven (x / 2 powi (max \<lfloor>log 2 x\<rfloor> emin - int p + 1)))
           * 2 powi (max \<lfloor>log 2 x\<rfloor> emin - int p + 1)"
  using assms by (simp add: fround_def Let_def)

text \<open>Numbers with a short enough numerator are not changed.\<close>

lemma fround_dyadic_pos:
  assumes k: "0 < k" "k < 2 ^ p" and j: "emin \<le> - int j"
  shows "fround p emin (of_int k / 2 ^ j) = of_int k / 2 ^ j"
proof -
  let ?x = "real_of_int k / 2 ^ j"
  have x: "0 < ?x" using k(1) by simp
  define e where "e = \<lfloor>log 2 ?x\<rfloor>"
  have lo: "2 powi e \<le> ?x" and hi: "?x < 2 powi (e + 1)"
    unfolding e_def using floor_log2 [OF x] by simp_all
  have "1 \<le> real_of_int k" using k(1) by simp
  then have "(2 :: real) powi (- int j) \<le> ?x"
    by (simp add: power_int_minus_divide divide_right_mono)
  then have "(2 :: real) powi (- int j) < 2 powi (e + 1)" using hi by linarith
  then have e1: "- int j \<le> e" using powi2_less_D by fastforce
  have "real_of_int k < 2 ^ p" using k(2) by (metis of_int_less_iff of_int_numeral of_int_power)
  then have "?x < 2 ^ p / 2 ^ j" by (simp add: divide_strict_right_mono)
  also have "\<dots> = 2 powi (int p - int j)"
    by (simp add: power_int_diff)
  finally have "(2 :: real) powi e < 2 powi (int p - int j)" using lo by linarith
  then have e2: "e < int p - int j" by (rule powi2_less_D)
  define t where "t = nat (int p - 1 - e - int j)"
  have t: "int t = int p - 1 - e - int j" using e2 by (simp add: t_def)
  have m: "max e emin = e" using e1 j by simp
  have u: "(2 :: real) powi (e - int p + 1) = 1 / (2 ^ j * 2 ^ t)"
  proof -
    have "e - int p + 1 = - int (j + t)" using t by simp
    then have "(2 :: real) powi (e - int p + 1) = 2 powi (- int (j + t))" by (simp only:)
    also have "\<dots> = 1 / 2 powi (int (j + t))" by (rule power_int_minus_divide)
    also have "\<dots> = 1 / (2 ^ j * 2 ^ t)" by (simp only: power_int_of_nat power_add)
    finally show ?thesis .
  qed
  have q: "?x / 2 powi (e - int p + 1) = of_int (k * 2 ^ t)"
    unfolding u by simp
  have "fround p emin ?x = of_int (roundHalfEven (?x / 2 powi (e - int p + 1)))
          * 2 powi (e - int p + 1)"
    using fround_pos_eq [OF x, of p emin] m by (simp add: e_def)
  also have "\<dots> = of_int (k * 2 ^ t) * 2 powi (e - int p + 1)"
    unfolding q roundHalfEven_of_int ..
  also have "\<dots> = ?x" unfolding u by simp
  finally show ?thesis .
qed

lemma fround_of_int_pos:
  assumes "0 < k" "k < 2 ^ p" "emin \<le> 0"
  shows "fround p emin (of_int k) = of_int k"
  using fround_dyadic_pos [OF assms(1,2), of emin 0] assms(3) by simp

text \<open>Rounding is monotone on the positive numbers.\<close>

lemma fround_binade:
  fixes emin :: int
  assumes x: "0 < x" and p: "0 < p"
  shows "fround p emin x \<le> 2 powi (max \<lfloor>log 2 x\<rfloor> emin + 1)"
    and "emin \<le> \<lfloor>log 2 x\<rfloor> \<Longrightarrow> 2 powi (max \<lfloor>log 2 x\<rfloor> emin) \<le> fround p emin x"
proof -
  define e where "e = max \<lfloor>log 2 x\<rfloor> emin"
  let ?u = "(2 :: real) powi (e - int p + 1)"
  have u: "0 < ?u" by (rule powi2_pos)
  have f: "fround p emin x = of_int (roundHalfEven (x / ?u)) * ?u"
    using fround_pos_eq [OF x, of p emin] by (simp add: e_def)
  have pw: "(2 :: real) powi (e + 1) = of_int (2 ^ p) * ?u"
  proof -
    have "e + 1 = int p + (e - int p + 1)" by simp
    then have "(2 :: real) powi (e + 1) = 2 powi (int p + (e - int p + 1))" by simp
    also have "\<dots> = 2 powi (int p) * ?u" by (rule power_int_add) simp
    finally show ?thesis by (simp add: power_int_of_nat)
  qed
  have pw': "(2 :: real) powi e = of_int (2 ^ (p - 1)) * ?u"
  proof -
    have "e = int (p - 1) + (e - int p + 1)" using p by simp
    then have "(2 :: real) powi e = 2 powi (int (p - 1) + (e - int p + 1))" by simp
    also have "\<dots> = 2 powi (int (p - 1)) * ?u" by (rule power_int_add) simp
    finally show ?thesis by (simp add: power_int_of_nat)
  qed
  have "\<lfloor>log 2 x\<rfloor> \<le> e" by (simp add: e_def)
  then have "(2 :: real) powi (\<lfloor>log 2 x\<rfloor> + 1) \<le> 2 powi (e + 1)"
    by (intro power_int_increasing) simp_all
  then have "x \<le> 2 powi (e + 1)" using floor_log2(2) [OF x] by linarith
  then have "x / ?u \<le> of_int (2 ^ p)" using u by (simp add: pw pos_divide_le_eq)
  from roundHalfEven_mono [OF this]
  have "roundHalfEven (x / ?u) \<le> 2 ^ p" by (simp only: roundHalfEven_of_int)
  then have "real_of_int (roundHalfEven (x / ?u)) \<le> of_int (2 ^ p)" by (simp only: of_int_le_iff)
  then have "fround p emin x \<le> 2 powi (e + 1)"
    unfolding f pw using u by (simp add: mult_right_mono)
  then show "fround p emin x \<le> 2 powi (max \<lfloor>log 2 x\<rfloor> emin + 1)"
    unfolding e_def .
  have "2 powi e \<le> fround p emin x" if "emin \<le> \<lfloor>log 2 x\<rfloor>"
  proof -
    have "e = \<lfloor>log 2 x\<rfloor>" using that by (simp add: e_def)
    then have "2 powi e \<le> x" using floor_log2(1) [OF x] by simp
    then have "of_int (2 ^ (p - 1)) \<le> x / ?u" using u by (simp add: pw' pos_le_divide_eq)
    from roundHalfEven_mono [OF this]
    have "2 ^ (p - 1) \<le> roundHalfEven (x / ?u)" by (simp only: roundHalfEven_of_int)
    then have "real_of_int (2 ^ (p - 1)) \<le> of_int (roundHalfEven (x / ?u))"
      by (simp only: of_int_le_iff)
    then show ?thesis unfolding f pw' using u by (simp add: mult_right_mono)
  qed
  then show "emin \<le> \<lfloor>log 2 x\<rfloor> \<Longrightarrow> 2 powi (max \<lfloor>log 2 x\<rfloor> emin) \<le> fround p emin x"
    unfolding e_def .
qed

lemma fround_mono_pos:
  assumes x: "0 < x" and xy: "x \<le> y" and p: "0 < p"
  shows "fround p emin x \<le> fround p emin y"
proof -
  have y: "0 < y" using x xy by linarith
  let ?ex = "max \<lfloor>log 2 x\<rfloor> emin"
  let ?ey = "max \<lfloor>log 2 y\<rfloor> emin"
  have le: "?ex \<le> ?ey" using floor_log2_mono [OF x xy] by simp
  show ?thesis
  proof (cases "?ex = ?ey")
    case True
    let ?u = "(2 :: real) powi (?ey - int p + 1)"
    have u: "0 < ?u" by (rule powi2_pos)
    have "x / ?u \<le> y / ?u" using xy u by (simp add: divide_right_mono)
    from roundHalfEven_mono [OF this]
    have "real_of_int (roundHalfEven (x / ?u)) * ?u \<le> of_int (roundHalfEven (y / ?u)) * ?u"
      using u by (simp add: mult_right_mono)
    then show ?thesis
      using fround_pos_eq [OF x, of p emin] fround_pos_eq [OF y, of p emin] True by simp
  next
    case False
    then have lt: "?ex + 1 \<le> ?ey" using le by simp
    then have n: "emin \<le> \<lfloor>log 2 y\<rfloor>" by simp
    have "fround p emin x \<le> 2 powi (?ex + 1)" using fround_binade(1) [OF x p] .
    also have "\<dots> \<le> 2 powi ?ey" using lt by (intro power_int_increasing) simp_all
    also have "\<dots> \<le> fround p emin y" using fround_binade(2) [OF y p n] .
    finally show ?thesis .
  qed
qed

lemma fround_le_dyadic:
  assumes "0 < x" "x \<le> of_int k / 2 ^ j" "k < 2 ^ p" "emin \<le> - int j" "0 < p"
  shows "fround p emin x \<le> of_int k / 2 ^ j"
proof -
  have "0 < real_of_int k / 2 ^ j" using assms(1,2) by linarith
  then have k: "0 < k" by (simp add: zero_less_divide_iff)
  from fround_mono_pos [OF assms(1,2,5), of emin] fround_dyadic_pos [OF k assms(3,4)]
  show ?thesis by simp
qed

lemma fround_ge_dyadic:
  assumes "0 < k" "of_int k / 2 ^ j \<le> x" "k < 2 ^ p" "emin \<le> - int j" "0 < p"
  shows "of_int k / 2 ^ j \<le> fround p emin x"
proof -
  have "0 < real_of_int k / 2 ^ j" using assms(1) by simp
  from fround_mono_pos [OF this assms(2,5), of emin] fround_dyadic_pos [OF assms(1,3,4)]
  show ?thesis by simp
qed

text \<open>The two formats.\<close>

lemma rnd64_0: "rnd64 0 = 0"
  by (simp add: rnd64_def fround_0)

lemma rnd32_0: "rnd32 0 = 0"
  by (simp add: rnd32_def fround_0)

lemma rnd64_nat: "n < 2 ^ 53 \<Longrightarrow> rnd64 (real n) = real n"
proof (cases "n = 0")
  case True
  then show ?thesis by (simp add: rnd64_0)
next
  case False
  assume "n < 2 ^ 53"
  then have "int n < 2 ^ 53" by (metis of_nat_less_iff of_nat_numeral of_nat_power)
  then have "fround 53 (- 1022) (of_int (int n)) = of_int (int n)"
    using False by (intro fround_of_int_pos) simp_all
  then show ?thesis by (simp add: rnd64_def)
qed

lemma rnd32_nat: "n < 2 ^ 24 \<Longrightarrow> rnd32 (real n) = real n"
proof (cases "n = 0")
  case True
  then show ?thesis by (simp add: rnd32_0)
next
  case False
  assume "n < 2 ^ 24"
  then have "int n < 2 ^ 24" by (metis of_nat_less_iff of_nat_numeral of_nat_power)
  then have "fround 24 (- 126) (of_int (int n)) = of_int (int n)"
    using False by (intro fround_of_int_pos) simp_all
  then show ?thesis by (simp add: rnd32_def)
qed

lemma rnd32_half: "rnd32 (1 / 2) = 1 / 2"
  using fround_dyadic_pos [of 1 24 "- 126" 1] by (simp add: rnd32_def)

lemma rnd64_le:
  assumes "0 < x" "x \<le> of_int k / 2 ^ j" "k < 2 ^ 53" "j \<le> 1022"
  shows "rnd64 x \<le> of_int k / 2 ^ j"
  unfolding rnd64_def using assms by (intro fround_le_dyadic) simp_all

lemma rnd64_ge:
  assumes "0 < k" "of_int k / 2 ^ j \<le> x" "k < 2 ^ 53" "j \<le> 1022"
  shows "of_int k / 2 ^ j \<le> rnd64 x"
  unfolding rnd64_def using assms by (intro fround_ge_dyadic) simp_all

lemma dmul_0: "dmul x 0 = 0"
  by (simp add: dmul_def rnd64_0)

text \<open>The number literals \<^verbatim>\<open>0.55\<close>, \<^verbatim>\<open>0.40\<close> and \<^verbatim>\<open>0.28\<close> lie between a quarter and three
  quarters.\<close>

lemma rnd64_factor:
  assumes "1 / 4 \<le> c" "c \<le> 3 / 4"
  shows "0 < rnd64 c" "rnd64 c < 1"
proof -
  have "of_int 1 / 2 ^ 2 \<le> rnd64 c" by (rule rnd64_ge) (use assms in simp_all)
  then show "0 < rnd64 c" by simp
  have "rnd64 c \<le> of_int 3 / 2 ^ 2" by (rule rnd64_le) (use assms in simp_all)
  then show "rnd64 c < 1" by simp
qed

section \<open>Proxy dimensions\<close>

lemma goQuot_nonneg: "0 \<le> a \<Longrightarrow> 0 < b \<Longrightarrow> goQuot a b = a div b"
  by (simp add: goQuot_def)

lemma goInt_id: "- (2 ^ 63) \<le> x \<Longrightarrow> x < 2 ^ 63 \<Longrightarrow> goInt x = x"
  by (simp add: goInt_def)

lemma goRound_half_nonneg: "0 \<le> k \<Longrightarrow> goRound (of_int k + 1 / 2) = k + 1"
proof -
  assume k: "0 \<le> k"
  have "\<lfloor>of_int k + 1 / 2 + 1 / (2::real)\<rfloor> = \<lfloor>of_int (k + 1) :: real\<rfloor>"
    by simp
  then show ?thesis
    using k by (simp add: goRound_def)
qed

lemma goRound_half_neg: "k < 0 \<Longrightarrow> goRound (of_int k + 1 / 2) = k"
proof -
  assume k: "k < 0"
  then have neg: "(of_int k :: real) + 1 / 2 < 0"
    by (smt (verit) of_int_less_iff of_int_0 of_int_1 int_less_real_le field_sum_of_halves)
  have "- (of_int k + 1 / 2) + 1 / (2::real) = of_int (- k)"
    by simp
  then have "\<lfloor>- (of_int k + 1 / 2) + 1 / (2::real)\<rfloor> = - k"
    by (metis floor_of_int)
  then show ?thesis
    using neg by (simp add: goRound_def)
qed

lemma goRound_nearest: "\<bar>of_int (goRound v) - v\<bar> \<le> 1 / 2"
proof (cases "v < 0")
  case True
  define n where "n = \<lfloor>- v + 1 / 2\<rfloor>"
  have "of_int n \<le> - v + 1 / 2" "- v + 1 / 2 < of_int n + 1"
    unfolding n_def by linarith+
  then have "\<bar>of_int (- n) - v\<bar> \<le> 1 / 2"
    by (simp only: of_int_minus)
  moreover have "goRound v = - n"
    using True unfolding goRound_def n_def by simp
  ultimately show ?thesis by (simp only:)
next
  case False
  define n where "n = \<lfloor>v + 1 / 2\<rfloor>"
  have "of_int n \<le> v + 1 / 2" "v + 1 / 2 < of_int n + 1"
    unfolding n_def by linarith+
  then have "\<bar>of_int n - v\<bar> \<le> 1 / 2"
    by linarith
  moreover have "goRound v = n"
    using False unfolding goRound_def n_def by simp
  ultimately show ?thesis by (simp only:)
qed

text \<open>
  C5 (as amended). For a source with \<open>W > 100\<close> or \<open>H > 100\<close> (both positive and small
  enough for \<open>100 * W\<close> and \<open>100 * H\<close> to fit a Go \<open>int\<close>) the longer side of the proxy
  is 100 and the shorter side is \<open>max 1 (other * 100 div longer)\<close>: the quotient is the
  integer division of the code, rounded down, not to nearest. When both sides are at
  most 100 the proxy has the dimensions of the source.
\<close>

theorem thumbDims_floor:
  assumes "0 < W" "0 < H" "W < 2 ^ 56" "H < 2 ^ 56"
  shows "((W > 100 \<or> H > 100) \<longrightarrow>
           thumbDims W H = (if W \<ge> H then (100, max 1 (H * 100 div W))
                            else (max 1 (W * 100 div H), 100)))
       \<and> ((W \<le> 100 \<and> H \<le> 100) \<longrightarrow> thumbDims W H = (W, H))"
proof -
  have w: "goInt (W * 100) = W * 100" and h: "goInt (H * 100) = H * 100"
    using assms by (simp_all add: goInt_id)
  have "(W > 100 \<or> H > 100) \<longrightarrow>
           thumbDims W H = (if W \<ge> H then (100, max 1 (H * 100 div W))
                            else (max 1 (W * 100 div H), 100))"
    using assms w h
    by (auto simp: thumbDims_def maxThumbDim_def max1_def goQuot_nonneg max_def)
  moreover have "(W \<le> 100 \<and> H \<le> 100) \<longrightarrow> thumbDims W H = (W, H)"
    by (simp add: thumbDims_def maxThumbDim_def)
  ultimately show ?thesis by blast
qed

theorem thumbDims_floor_witness:
  "(0::int) < 300 \<and> (0::int) < 200 \<and> (300::int) < 2 ^ 56 \<and> (200::int) < 2 ^ 56
   \<and> ((300::int) > 100 \<or> (200::int) > 100) \<and> thumbDims 300 200 = (100, 66)"
  using thumbDims_floor [of 300 200] by simp

theorem thumbDims_round_counterexample:
  "thumbDims 300 200 = (100, 66) \<and> max 1 (round (200 * 100 / 300 :: real)) = 67"
proof -
  have "round (200 * 100 / 300 :: real) = 67"
    by (simp add: round_def floor_eq_iff)
  then show ?thesis
    by (simp add: thumbDims_def maxThumbDim_def max1_def goQuot_def goInt_def)
qed

text \<open>\<^verbatim>\<open>math.Round\<close> rounds to nearest, halves away from zero, and only one integer does.\<close>

lemma goRound_halfAway: "halfAway x (goRound x)"
proof (cases "x < 0")
  case True
  define r :: real where "r = of_int \<lfloor>- x + 1 / 2\<rfloor>"
  have b: "r \<le> - x + 1 / 2" "- x + 1 / 2 < r + 1"
    unfolding r_def by linarith+
  have g: "of_int (goRound x) = - r"
    using True by (simp add: goRound_def r_def)
  have "\<bar>- r - x\<bar> \<le> 1 / 2 \<and> (\<bar>- r - x\<bar> < 1 / 2 \<or> \<bar>x\<bar> < \<bar>- r\<bar>)"
    using b True by (auto simp: abs_if)
  then show ?thesis
    unfolding halfAway_def g .
next
  case False
  define r :: real where "r = of_int \<lfloor>x + 1 / 2\<rfloor>"
  have b: "r \<le> x + 1 / 2" "x + 1 / 2 < r + 1"
    unfolding r_def by linarith+
  have g: "of_int (goRound x) = r"
    using False by (simp add: goRound_def r_def)
  have "\<bar>r - x\<bar> \<le> 1 / 2 \<and> (\<bar>r - x\<bar> < 1 / 2 \<or> \<bar>x\<bar> < \<bar>r\<bar>)"
    using b False by (auto simp: abs_if)
  then show ?thesis
    unfolding halfAway_def g .
qed

lemma goRound_range:
  assumes "of_int a \<le> x" "x \<le> of_int b"
  shows "a \<le> goRound x \<and> goRound x \<le> b"
proof (cases "x < 0")
  case True
  have "\<lfloor>- x + 1 / 2\<rfloor> \<le> - a" "- b \<le> \<lfloor>- x + 1 / 2\<rfloor>"
    using assms by (simp_all add: floor_le_iff le_floor_iff)
  then show ?thesis using True by (simp add: goRound_def)
next
  case False
  have "a \<le> \<lfloor>x + 1 / 2\<rfloor>" "\<lfloor>x + 1 / 2\<rfloor> \<le> b"
    using assms by (simp_all add: floor_le_iff le_floor_iff)
  then show ?thesis using False by (simp add: goRound_def)
qed

lemma halfAway_less:
  assumes n: "halfAway x n" and m: "halfAway x m" and "n < m"
  shows False
proof -
  have "real_of_int n + 1 \<le> of_int m" using assms(3) by linarith
  moreover have "\<bar>of_int n - x\<bar> \<le> 1 / 2" "\<bar>of_int m - x\<bar> \<le> 1 / 2"
    using n m by (simp_all add: halfAway_def)
  ultimately have e: "x = of_int n + 1 / 2" "real_of_int m = of_int n + 1" by linarith+
  have "\<bar>x\<bar> < \<bar>real_of_int n\<bar>" "\<bar>x\<bar> < \<bar>real_of_int m\<bar>"
    using n m e by (auto simp: halfAway_def)
  then have "\<bar>real_of_int n + 1 / 2\<bar> < \<bar>real_of_int n\<bar>"
    "\<bar>real_of_int n + 1 / 2\<bar> < \<bar>real_of_int n + 1\<bar>"
    unfolding e by simp_all
  then show False by (auto simp: abs_if split: if_splits)
qed

lemma halfAway_unique: "halfAway x n \<Longrightarrow> halfAway x m \<Longrightarrow> n = m"
  using halfAway_less [of x n m] halfAway_less [of x m n] by (cases "n < m"; cases "m < n") auto

lemma halfAway_goRound: "halfAway x n \<Longrightarrow> n = goRound x"
  using goRound_halfAway by (rule halfAway_unique [rotated])

text \<open>
  C6 (as amended). Every rounding of a real value to an integer field of the encoder
  uses \<^verbatim>\<open>math.Round\<close>, which returns a nearest integer and, for a value halfway between two
  integers, the one away from zero: \<^verbatim>\<open>roundF\<close> on every value from \<open>- 2 ^ 63\<close> to \<open>2 ^ 63 - 1\<close>,
  where the result is in the range of \<^verbatim>\<open>int\<close>, the basis
  dimensions \<open>max1 (round (limit * d / m))\<close> for the sizes the encoder passes, the eight
  header fields of a proxy in \<open>[0, 1]\<close>, and the AC nibble.
\<close>

theorem roundF_half_away:
  "(- (2 ^ 63) \<le> v \<and> v \<le> 2 ^ 63 - 1 \<longrightarrow>
        halfAway v (roundF v) \<and> - (2 ^ 63) \<le> roundF v \<and> roundF v \<le> 2 ^ 63 - 1)
   \<and> (0 < m \<and> d \<le> m \<and> m \<le> 100 \<and> limit \<le> 7 \<longrightarrow>
        (\<exists>n. halfAway (real (limit * d) / real m) n \<and> basisDim limit d m = nat (max1 n)))
   \<and> (channelsRange e \<longrightarrow>
        (\<exists>n1 n2 n3 n4 n5 n6 n7 n8.
           halfAway (e_lDC e * 63) n1 \<and> halfAway (e_pDC e * 31 + 31) n2
           \<and> halfAway (e_qDC e * 31 + 31) n3 \<and> halfAway (e_lScale e * 31) n4
           \<and> halfAway (e_pScale e * 63) n5 \<and> halfAway (e_qScale e * 63) n6
           \<and> halfAway (e_aDC e * 15) n7 \<and> halfAway (e_aScale e * 15) n8
           \<and> encHeader w h e
               = toU32 n1 OR push_bit 6 (toU32 n2) OR push_bit 12 (toU32 n3)
                 OR push_bit 18 (toU32 n4) OR push_bit 23 (boolU32 (e_hasAlpha e))
                 OR push_bit 24 (of_nat (if w > h then e_ly e else e_lx e))
                 OR push_bit 28 (boolU32 (w > h))
           \<and> encHeader2 e = toU16 n5 OR push_bit 6 (toU16 n6)
           \<and> encAlphaHdr e = (if e_hasAlpha e then toU16 n7 OR push_bit 4 (toU16 n8) else 0)))
   \<and> (\<exists>n. halfAway (clamp01f (rnd32 (rnd32 (c / 2) + 0.5)) * 15) n \<and> acNibble c = toByte n)"
proof (intro conjI impI)
  show "halfAway v (roundF v)"
    unfolding roundF_def by (rule goRound_halfAway)
  assume "- (2 ^ 63) \<le> v \<and> v \<le> 2 ^ 63 - 1"
  then have "- (2 ^ 63) \<le> goRound v \<and> goRound v \<le> 2 ^ 63 - 1"
    using goRound_range [of "- (2 ^ 63)" v "2 ^ 63 - 1"] by simp
  then show "- (2 ^ 63) \<le> roundF v" "roundF v \<le> 2 ^ 63 - 1"
    by (simp_all add: roundF_def)
next
  show "\<exists>n. halfAway (real (limit * d) / real m) n \<and> basisDim limit d m = nat (max1 n)"
    using goRound_halfAway [of "real (limit * d) / real m"]
    by (auto simp: basisDim_def roundF_def)
  have H: "encHeader w h e
      = toU32 (goRound (e_lDC e * 63)) OR push_bit 6 (toU32 (goRound (e_pDC e * 31 + 31)))
        OR push_bit 12 (toU32 (goRound (e_qDC e * 31 + 31)))
        OR push_bit 18 (toU32 (goRound (e_lScale e * 31)))
        OR push_bit 23 (boolU32 (e_hasAlpha e))
        OR push_bit 24 (of_nat (if w > h then e_ly e else e_lx e))
        OR push_bit 28 (boolU32 (w > h))"
    by (cases "w > h") (simp_all add: encHeader_def Let_def or.assoc)
  have H2: "encHeader2 e = toU16 (goRound (e_pScale e * 63))
      OR push_bit 6 (toU16 (goRound (e_qScale e * 63)))"
    by (simp add: encHeader2_def)
  have A: "encAlphaHdr e = (if e_hasAlpha e
      then toU16 (goRound (e_aDC e * 15)) OR push_bit 4 (toU16 (goRound (e_aScale e * 15)))
      else 0)"
    by (simp add: encAlphaHdr_def)
  show "\<exists>n1 n2 n3 n4 n5 n6 n7 n8.
           halfAway (e_lDC e * 63) n1 \<and> halfAway (e_pDC e * 31 + 31) n2
           \<and> halfAway (e_qDC e * 31 + 31) n3 \<and> halfAway (e_lScale e * 31) n4
           \<and> halfAway (e_pScale e * 63) n5 \<and> halfAway (e_qScale e * 63) n6
           \<and> halfAway (e_aDC e * 15) n7 \<and> halfAway (e_aScale e * 15) n8
           \<and> encHeader w h e
               = toU32 n1 OR push_bit 6 (toU32 n2) OR push_bit 12 (toU32 n3)
                 OR push_bit 18 (toU32 n4) OR push_bit 23 (boolU32 (e_hasAlpha e))
                 OR push_bit 24 (of_nat (if w > h then e_ly e else e_lx e))
                 OR push_bit 28 (boolU32 (w > h))
           \<and> encHeader2 e = toU16 n5 OR push_bit 6 (toU16 n6)
           \<and> encAlphaHdr e = (if e_hasAlpha e then toU16 n7 OR push_bit 4 (toU16 n8) else 0)"
    using H H2 A goRound_halfAway by blast
  show "\<exists>n. halfAway (clamp01f (rnd32 (rnd32 (c / 2) + 0.5)) * 15) n \<and> acNibble c = toByte n"
    using goRound_halfAway [of "clamp01f (rnd32 (rnd32 (c / 2) + 0.5)) * 15"]
    by (auto simp: acNibble_def)
qed

lemma goRound_values:
  "goRound (5 / 2) = 3" "goRound (63 / 2) = 32" "goRound (93 / 2) = 47" "goRound (31 / 2) = 16"
  "goRound (15 / 2) = 8" "goRound 0 = 0"
  by (simp_all add: goRound_def floor_eq_iff)

theorem roundF_half_away_witness:
  "(- (2 ^ 63) \<le> (5 / 2 :: real) \<and> (5 / 2 :: real) \<le> 2 ^ 63 - 1) \<and> roundF (5 / 2) = 3
   \<and> ((0 :: nat) < 2 \<and> (1 :: nat) \<le> 2 \<and> (2 :: nat) \<le> 100 \<and> (5 :: nat) \<le> 7)
   \<and> basisDim 5 1 2 = 3
   \<and> channelsRange chanHalf
   \<and> encHeader 1 1 chanHalf
       = 32 OR push_bit 6 47 OR push_bit 12 47 OR push_bit 18 16 OR push_bit 24 7
   \<and> encHeader2 chanHalf = 32 OR push_bit 6 32
   \<and> acNibble 0 = 8"
proof -
  have cr: "channelsRange chanHalf" by (simp add: channelsRange_def chanHalf_def)
  have v: "- (2 ^ 63) \<le> (5 / 2 :: real) \<and> (5 / 2 :: real) \<le> 2 ^ 63 - 1" by simp
  have s: "(0 :: nat) < 2 \<and> (1 :: nat) \<le> 2 \<and> (2 :: nat) \<le> 100 \<and> (5 :: nat) \<le> 7" by simp
  note t = roundF_half_away [of "5 / 2" 2 1 5 chanHalf 1 1 0]
  have r: "halfAway (5 / 2) (roundF (5 / 2))" using t v by blast
  obtain n where n: "halfAway (real (5 * 1) / real 2) n" "basisDim 5 1 2 = nat (max1 n)"
    using t s by blast
  obtain n1 n2 n3 n4 n5 n6 :: int where
    h: "halfAway (e_lDC chanHalf * 63) n1" "halfAway (e_pDC chanHalf * 31 + 31) n2"
       "halfAway (e_qDC chanHalf * 31 + 31) n3" "halfAway (e_lScale chanHalf * 31) n4"
       "halfAway (e_pScale chanHalf * 63) n5" "halfAway (e_qScale chanHalf * 63) n6"
    and H: "encHeader 1 1 chanHalf
               = toU32 n1 OR push_bit 6 (toU32 n2) OR push_bit 12 (toU32 n3)
                 OR push_bit 18 (toU32 n4) OR push_bit 23 (boolU32 (e_hasAlpha chanHalf))
                 OR push_bit 24 (of_nat (if (1 :: nat) > 1 then e_ly chanHalf else e_lx chanHalf))
                 OR push_bit 28 (boolU32 ((1 :: nat) > 1))"
    and H2: "encHeader2 chanHalf = toU16 n5 OR push_bit 6 (toU16 n6)"
    using t cr by blast
  obtain k where k: "halfAway (clamp01f (rnd32 (rnd32 (0 / 2) + 0.5)) * 15) k"
    "acNibble 0 = toByte k"
    using t by blast
  have q: "clamp01f (rnd32 (rnd32 (0 / 2) + 0.5)) * 15 = 15 / 2"
    by (simp add: rnd32_0 rnd32_half clamp01f_def)
  have k': "k = 8"
    using halfAway_goRound [OF k(1)] unfolding q goRound_values .
  have n': "n = 3" using halfAway_goRound [OF n(1)] goRound_values by simp
  have ns: "n1 = 32" "n2 = 47" "n3 = 47" "n4 = 16" "n5 = 32" "n6 = 32"
    using h [THEN halfAway_goRound] goRound_values by (simp_all add: chanHalf_def)
  have "roundF (5 / 2) = 3"
    using halfAway_goRound [OF r] goRound_values by simp
  moreover have "basisDim 5 1 2 = 3" using n(2) n' by (simp add: max1_def)
  moreover have "encHeader 1 1 chanHalf
       = 32 OR push_bit 6 47 OR push_bit 12 47 OR push_bit 18 16 OR push_bit 24 7"
    unfolding H ns by (simp add: toU32_def boolU32_def chanHalf_def)
  moreover have "encHeader2 chanHalf = 32 OR push_bit 6 32"
    unfolding H2 ns by (simp add: toU16_def)
  moreover have "acNibble 0 = 8" using k(2) k' by (simp add: toByte_def)
  ultimately show ?thesis using v s cr by blast
qed

theorem roundF_half_even_counterexample:
  "roundF (5 / 2) = 3 \<and> roundHalfEven (5 / 2) = 2"
proof -
  have f: "\<lfloor>5 / 2 :: real\<rfloor> = 2" by (simp add: floor_eq_iff)
  have g: "\<lfloor>5 / 2 + 1 / 2 :: real\<rfloor> = 3" by (simp add: floor_eq_iff)
  show ?thesis using f g by (simp add: roundF_def goRound_def roundHalfEven_def)
qed

section \<open>The decoder: loops over the byte buffer as maps over pixels\<close>

lemma length_flatten: "length (flatten px) = 4 * length px"
  by (induction px) (auto simp: flatten_def)

lemma pixels_flatten: "pixels (flatten px) = px"
  by (induction px) (auto simp: flatten_def)

lemma flatten_Cons: "flatten ((r, g, b, a) # px) = r # g # b # a # flatten px"
  by (simp add: flatten_def)

lemma length_pixels: "length rgba = 4 * n \<Longrightarrow> length (pixels rgba) = n"
proof (induction rgba arbitrary: n rule: pixels.induct)
  case (1 r g b a rest)
  then obtain m where "n = Suc m" by (cases n) auto
  with 1 show ?case by simp
qed auto

text \<open>A loop over pixel indices whose body rewrites the four bytes of pixel \<open>k\<close> from
  those bytes alone computes a map over the pixels.\<close>

lemma fold_pixelwise:
  assumes step: "\<And>A k r g b a rest. length A = 4 * k \<Longrightarrow>
            step k (A @ r # g # b # a # rest) = A @ flatten [F (r, g, b, a)] @ rest"
  shows "length A = 4 * m \<Longrightarrow> length B = 4 * n \<Longrightarrow>
         fold step [m..<m + n] (A @ B) = A @ flatten (map F (pixels B))"
proof (induction B arbitrary: A m n rule: pixels.induct)
  case (1 r g b a rest)
  then obtain n' where n: "n = Suc n'" by (cases n) auto
  obtain r' g' b' a' where F: "F (r, g, b, a) = (r', g', b', a')"
    by (cases "F (r, g, b, a)") auto
  have up: "[m..<m + n] = m # [Suc m..<Suc m + n']"
    using n by (simp add: upt_rec)
  have "fold step [m..<m + n] (A @ r # g # b # a # rest)
        = fold step [Suc m..<Suc m + n'] ((A @ [r', g', b', a']) @ rest)"
    using step [OF "1.prems"(1)] F by (simp add: up flatten_def)
  also have "\<dots> = (A @ [r', g', b', a']) @ flatten (map F (pixels rest))"
    using "1.prems" n by (intro "1.IH") auto
  finally show ?case using F by (simp add: flatten_def)
qed (simp_all add: flatten_def, presburger+)


lemma attenuateAt_step:
  assumes "length A = 4 * k"
  shows "attenuateAt cc (A @ r # g # b # a # rest) (4 * k)
         = A @ flatten [specAttenuate cc (r, g, b, a)] @ rest"
proof -
  have i: "4 * k + 2 < length (A @ r # g # b # a # rest)"
    using assms by simp
  have rd: "(A @ r # g # b # a # rest) ! (4 * k) = r"
           "(A @ r # g # b # a # rest) ! (4 * k + 1) = g"
           "(A @ r # g # b # a # rest) ! (4 * k + 2) = b"
    using assms by (simp_all add: nth_append)
  show ?thesis
    unfolding attenuateAt_def
    using assms
    by (simp only: i rd if_True Let_def)
       (simp add: list_update_append specAttenuate_def flatten_def chanR_def chanG_def
          chanB_def Let_def)
qed

lemma attenuateChroma_pixelwise:
  assumes "length rgba = 4 * n"
  shows "attenuateChroma rgba c = flatten (map (specAttenuate (max 0 c)) (pixels rgba))"
proof -
  have n: "(length rgba + 3) div 4 = n" using assms by simp
  have "fold (\<lambda>k buf. attenuateAt (max 0 c) buf (4 * k)) [0..<0 + n] ([] @ rgba)
        = [] @ flatten (map (specAttenuate (max 0 c)) (pixels rgba))"
    by (rule fold_pixelwise [where F = "specAttenuate (max 0 c)"])
       (simp_all add: attenuateAt_step assms)
  then show ?thesis
    by (simp add: attenuateChroma_def n)
qed

lemma biasStore_step:
  assumes "length A = 4 * k"
  shows "biasStore (Some db) (biasStore (Some dg) (biasStore (Some dr)
           (A @ r # g # b # a # rest) (4 * k)) (4 * k + 1)) (4 * k + 2)
         = A @ flatten [specBias dr dg db (r, g, b, a)] @ rest"
  using assms
  by (simp add: biasStore_def list_update_append nth_append specBias_def flatten_def
        clampByte255_def chanR_def chanG_def chanB_def)

lemma fold_sum_pixels:
  fixes ch :: "pixel \<Rightarrow> real"
  assumes ch: "\<And>A k r g b a rest. length A = 4 * k \<Longrightarrow>
             f (A @ r # g # b # a # rest) k = ch (r, g, b, a)"
  shows "length A = 4 * m \<Longrightarrow> length B = 4 * n \<Longrightarrow>
         fold (\<lambda>k s. dadd s (f (A @ B) k)) [m..<m + n] s0
         = fold (\<lambda>v s. dadd s v) (map ch (pixels B)) s0"
proof (induction B arbitrary: A m n s0 rule: pixels.induct)
  case (1 r g b a rest)
  then obtain n' where n: "n = Suc n'" by (cases n) auto
  have up: "[m..<m + n] = m # [Suc m..<Suc m + n']"
    using n by (simp add: upt_rec)
  have "fold (\<lambda>k s. dadd s (f ((A @ [r, g, b, a]) @ rest) k)) [Suc m..<Suc m + n']
          (dadd s0 (ch (r, g, b, a)))
        = fold (\<lambda>v s. dadd s v) (map ch (pixels rest)) (dadd s0 (ch (r, g, b, a)))"
    using "1.prems" n by (intro "1.IH") auto
  moreover have "fold (\<lambda>k s. dadd s (f (A @ r # g # b # a # rest) k)) [m..<m + n] s0
        = fold (\<lambda>k s. dadd s (f (A @ r # g # b # a # rest) k)) [Suc m..<Suc m + n']
            (dadd s0 (ch (r, g, b, a)))"
    using ch [OF "1.prems"(1)] by (simp only: up fold_simps comp_apply)
  ultimately show ?case
    by simp
qed auto

lemma avgChan_pixels:
  assumes "length rgba = 4 * n" "0 < n"
  shows "avgChan rgba n 0 = Some (specMean chanR (pixels rgba))"
    and "avgChan rgba n 1 = Some (specMean chanG (pixels rgba))"
    and "avgChan rgba n 2 = Some (specMean chanB (pixels rgba))"
proof -
  have lp: "length (pixels rgba) = n" using assms(1) by (rule length_pixels)
  have ok: "\<not> (n = 0 \<or> length rgba \<le> (n - 1) * 4 + c)" if "c < 4" for c
    using assms that by (cases n) auto
  have r: "fold (\<lambda>k s. dadd s (real (unat (([] @ rgba) ! (4 * k + 0))))) [0..<0 + n] 0
           = fold (\<lambda>v s. dadd s v) (map chanR (pixels rgba)) 0"
    by (rule fold_sum_pixels [where ch = chanR]) (simp_all add: assms nth_append chanR_def)
  have g: "fold (\<lambda>k s. dadd s (real (unat (([] @ rgba) ! (4 * k + 1))))) [0..<0 + n] 0
           = fold (\<lambda>v s. dadd s v) (map chanG (pixels rgba)) 0"
    by (rule fold_sum_pixels [where ch = chanG]) (simp_all add: assms nth_append chanG_def)
  have b: "fold (\<lambda>k s. dadd s (real (unat (([] @ rgba) ! (4 * k + 2))))) [0..<0 + n] 0
           = fold (\<lambda>v s. dadd s v) (map chanB (pixels rgba)) 0"
    by (rule fold_sum_pixels [where ch = chanB]) (simp_all add: assms nth_append chanB_def)
  show "avgChan rgba n 0 = Some (specMean chanR (pixels rgba))"
    using r ok [of 0] by (simp add: avgChan_def specMean_def lp)
  show "avgChan rgba n 1 = Some (specMean chanG (pixels rgba))"
    using g ok [of 1] by (simp add: avgChan_def specMean_def lp)
  show "avgChan rgba n 2 = Some (specMean chanB (pixels rgba))"
    using b ok [of 2] by (simp add: avgChan_def specMean_def lp)
qed

lemma applyBiasCorrection_pixelwise:
  assumes "length rgba = 4 * n" "0 < n" "3 \<le> length t"
  shows "applyBiasCorrection rgba n t gain
         = flatten (map (specBias (dmul (dsub (t ! 0) (specMean chanR (pixels rgba))) gain)
                                  (dmul (dsub (t ! 1) (specMean chanG (pixels rgba))) gain)
                                  (dmul (dsub (t ! 2) (specMean chanB (pixels rgba))) gain))
                        (pixels rgba))"
proof -
  let ?dr = "dmul (dsub (t ! 0) (specMean chanR (pixels rgba))) gain"
  let ?dg = "dmul (dsub (t ! 1) (specMean chanG (pixels rgba))) gain"
  let ?db = "dmul (dsub (t ! 2) (specMean chanB (pixels rgba))) gain"
  have "fold (\<lambda>k buf. biasStore (Some ?db) (biasStore (Some ?dg) (biasStore (Some ?dr) buf (4 * k))
                 (4 * k + 1)) (4 * k + 2)) [0..<0 + n] ([] @ rgba)
        = [] @ flatten (map (specBias ?dr ?dg ?db) (pixels rgba))"
  proof (rule fold_pixelwise [where F = "specBias ?dr ?dg ?db"
          and step = "\<lambda>k buf. biasStore (Some ?db) (biasStore (Some ?dg)
                 (biasStore (Some ?dr) buf (4 * k)) (4 * k + 1)) (4 * k + 2)"])
    fix A :: "byte list" and k r g b a rest
    assume "length A = 4 * k"
    then show "biasStore (Some ?db) (biasStore (Some ?dg) (biasStore (Some ?dr)
                 (A @ r # g # b # a # rest) (4 * k)) (4 * k + 1)) (4 * k + 2)
               = A @ flatten [specBias ?dr ?dg ?db (r, g, b, a)] @ rest"
      by (rule biasStore_step)
  qed (simp_all add: assms)
  note loop = this
  have avg: "computeAvgRGB rgba n = [Some (specMean chanR (pixels rgba)),
               Some (specMean chanG (pixels rgba)), Some (specMean chanB (pixels rgba))]"
    by (simp only: computeAvgRGB_def avgChan_pixels [OF assms(1,2)])
  have na: "numAt t 0 = Some (t ! 0)" "numAt t 1 = Some (t ! 1)" "numAt t 2 = Some (t ! 2)"
    using assms(3) by (auto simp: numAt_def)
  have nths: "[x0, x1, x2] ! 0 = x0" "[x0, x1, x2] ! 1 = x1" "[x0, x1, x2] ! 2 = x2"
    for x0 x1 x2 :: "real option"
    by simp_all
  show ?thesis
    unfolding applyBiasCorrection_def Let_def avg na nths Option.bind.bind_lunit
    using loop by simp
qed


lemma length_storePixel: "length (storePixel rgba idx px) = length rgba"
  by (simp add: storePixel_def)

lemma length_render_row:
  "length (fold (\<lambda>x buf. storePixel buf (f x) (g x)) xs buf0) = length buf0"
  by (induction xs arbitrary: buf0) (simp_all add: length_storePixel)

lemma length_render:
  "length (fold (\<lambda>y buf. fold (\<lambda>x buf. storePixel buf (f y x) (g y x)) xs buf) ys buf0)
     = length buf0"
  by (induction ys arbitrary: buf0) (simp_all add: length_render_row)

lemma length_renderRaw:
  "length (drgba (renderRaw E hash)) = 4 * (dw (renderRaw E hash) * dh (renderRaw E hash))"
  by (simp add: renderRaw_def Let_def length_render)

lemma unat_and_15: "unat ((x :: 32 word) AND 0xf) \<le> 15"
proof -
  have "x AND 0xf \<le> 0xf" by (rule word_and_le1)
  then show ?thesis by (simp add: word_le_nat_alt)
qed

lemma dec_basis:
  "1 \<le> dec_lx hash \<and> dec_lx hash \<le> 15 \<and> 1 \<le> dec_ly hash \<and> dec_ly hash \<le> 15"
  using unat_and_15 [of "signed_drop_bit 24 (headerWord hash)"]
  by (simp add: dec_lx_def dec_ly_def dec_lLimit_def dec_dimFlag_def)

lemma jsRound_32: "jsRound 32 = 32"
  by (simp add: jsRound_def floor_eq_iff)

lemma ddiv_ratio:
  assumes "1 \<le> b" "b < a" "a \<le> 15"
  shows "1 \<le> ddiv (real a) (real b)" "ddiv (real a) (real b) \<le> 15"
proof -
  have q: "1 \<le> real a / real b" "real a / real b \<le> 15"
    using assms by (simp_all add: le_divide_eq divide_le_eq)
  have "of_int 1 / 2 ^ 0 \<le> rnd64 (real a / real b)"
    by (rule rnd64_ge) (use q in simp_all)
  then show "1 \<le> ddiv (real a) (real b)" by (simp add: ddiv_def)
  have "rnd64 (real a / real b) \<le> of_int 15 / 2 ^ 0"
    by (rule rnd64_le) (use q in simp_all)
  then show "ddiv (real a) (real b) \<le> 15" by (simp add: ddiv_def)
qed

lemma jsRound_32_over:
  assumes "1 \<le> r" "r \<le> 15"
  shows "0 < jsRound (ddiv 32 r)"
proof -
  have "2 \<le> 32 / r" using assms by (simp add: le_divide_eq)
  then have "of_int 2 / 2 ^ 0 \<le> rnd64 (32 / r)"
    by (intro rnd64_ge) simp_all
  then have "1 \<le> \<lfloor>ddiv 32 r + 1 / 2\<rfloor>" by (simp add: le_floor_iff ddiv_def)
  then show ?thesis by (simp add: jsRound_def)
qed

lemma dec_dims_pos: "0 < dec_w hash \<and> 0 < dec_h hash"
proof -
  have b: "1 \<le> dec_lx hash" "dec_lx hash \<le> 15" "1 \<le> dec_ly hash" "dec_ly hash \<le> 15"
    using dec_basis [of hash] by simp_all
  have r: "1 \<le> dec_ratio hash \<and> dec_ratio hash \<le> 15"
    using b ddiv_ratio [of "dec_ly hash" "dec_lx hash"] ddiv_ratio [of "dec_lx hash" "dec_ly hash"]
    by (simp add: dec_ratio_def)
  then have "0 < jsRound (ddiv 32 (dec_ratio hash))" by (intro jsRound_32_over) simp_all
  then show ?thesis
    by (simp add: dec_w_def dec_h_def jsRound_32)
qed

lemma renderRaw_dims_pos: "0 < dw (renderRaw E hash) \<and> 0 < dh (renderRaw E hash)"
  using dec_dims_pos [of hash] by (simp add: renderRaw_def Let_def)

lemma thumbHashToRGBA_None: "thumbHashToRGBA E hash None = Inr (renderRaw E hash)"
  by (simp add: thumbHashToRGBA_def Let_def)

text \<open>
  C7. For every hash and every target mean colour \<open>t\<close> (an array of at least three
  numbers), the bitmap the adaptive path of \<^verbatim>\<open>thumbHashToDataURL\<close> hands to the BMP
  encoder has the size of the raw decode, and its pixels are those of the
  specification's pipeline \<open>specAdaptive\<close> applied to the raw pixels: raw mean, Euclidean
  distance to the target, attenuation 0.55 / 0.40 / 0.28 by the thresholds 20 and 45,
  BT.709 attenuation, mean of the attenuated pixels, offset \<open>(t - M') * 0.45\<close> added to
  R, G and B with a clamp to \<open>[0, 255]\<close>; alpha is unchanged. Both sides compute in
  \<^verbatim>\<open>float64\<close>, with the square root and the squares of the engine \<open>E\<close>.
\<close>

theorem adaptive_path_pipeline:
  assumes "3 \<le> length t"
  shows "thumbHashToDataURL_bitmap E hash chroma (Some t)
         = Inr ((renderRaw E hash)\<lparr>drgba :=
             flatten (specAdaptive E (pixels (drgba (renderRaw E hash))) (t ! 0) (t ! 1) (t ! 2))\<rparr>)"
proof -
  let ?d = "renderRaw E hash"
  let ?raw = "drgba ?d"
  let ?px = "pixels ?raw"
  define n where "n = dw ?d * dh ?d"
  have len: "length ?raw = 4 * n" unfolding n_def by (rule length_renderRaw)
  have n: "0 < n" unfolding n_def using renderRaw_dims_pos [of E hash] by simp
  define d where "d = Math_sqrt E (dadd (dadd (Num_pow E (dsub (specMean chanR ?px) (t ! 0)) 2)
                                               (Num_pow E (dsub (specMean chanG ?px) (t ! 1)) 2))
                                         (Num_pow E (dsub (specMean chanB ?px) (t ! 2)) 2))"
  define ac :: real where
    "ac = (if d < 20 then rnd64 0.55 else if d < 45 then rnd64 0.40 else rnd64 0.28)"
  have f: "0 < rnd64 0.55" "rnd64 0.55 < 1" "0 < rnd64 0.40" "rnd64 0.40 < 1"
    "0 < rnd64 0.28" "rnd64 0.28 < 1"
    by (rule rnd64_factor; simp)+
  have ac: "ac < 1" "max 0 ac = ac" using f by (simp_all add: ac_def)
  define att where "att = map (specAttenuate ac) ?px"
  have avg: "computeAvgRGB ?raw n = [Some (specMean chanR ?px), Some (specMean chanG ?px),
               Some (specMean chanB ?px)]"
    by (simp only: computeAvgRGB_def avgChan_pixels [OF len n])
  have dis: "do { a0 \<leftarrow> computeAvgRGB ?raw n ! 0; a1 \<leftarrow> computeAvgRGB ?raw n ! 1;
                  a2 \<leftarrow> computeAvgRGB ?raw n ! 2;
                  Some (Math_sqrt E (dadd (dadd (Num_pow E (dsub a0 (t ! 0)) 2)
                                                (Num_pow E (dsub a1 (t ! 1)) 2))
                                          (Num_pow E (dsub a2 (t ! 2)) 2))) } = Some d"
    by (simp add: avg d_def)
  have chroma: "adaptiveChroma (Some d) = ac"
    by (simp add: adaptiveChroma_def ac_def)
  have a1: "attenuateChroma ?raw ac = flatten att"
    using attenuateChroma_pixelwise [OF len, of ac] ac by (simp add: att_def)
  have latt: "length (flatten att) = 4 * n"
    by (simp add: length_flatten att_def length_pixels [OF len])
  have a2: "applyBiasCorrection (flatten att) n t (rnd64 0.45)
            = flatten (map (specBias (dmul (dsub (t ! 0) (specMean chanR att)) (rnd64 0.45))
                 (dmul (dsub (t ! 1) (specMean chanG att)) (rnd64 0.45))
                 (dmul (dsub (t ! 2) (specMean chanB att)) (rnd64 0.45))) att)"
    using applyBiasCorrection_pixelwise [OF latt n assms, of "rnd64 0.45"]
    by (simp only: pixels_flatten)
  have spec: "specAdaptive E ?px (t ! 0) (t ! 1) (t ! 2)
              = map (specBias (dmul (dsub (t ! 0) (specMean chanR att)) (rnd64 0.45))
                 (dmul (dsub (t ! 1) (specMean chanG att)) (rnd64 0.45))
                 (dmul (dsub (t ! 2) (specMean chanB att)) (rnd64 0.45))) att"
    unfolding specAdaptive_def Let_def d_def [symmetric] ac_def [symmetric] att_def [symmetric]
    by (rule refl)
  show ?thesis
    unfolding thumbHashToDataURL_bitmap_def thumbHashToRGBA_None
    using assms
    by (simp only: option.case sum.case if_True Let_def n_def [symmetric] dis chroma ac a1 a2 spec)
qed

theorem adaptive_path_pipeline_witness:
  "3 \<le> length [102, 199, 0 :: real]
   \<and> thumbHashToDataURL_bitmap jsExact [0x8c, 0x7c, 0, 0, 0, 0] None (Some [102, 199, 0])
     = Inr ((renderRaw jsExact [0x8c, 0x7c, 0, 0, 0, 0])\<lparr>drgba :=
         flatten (specAdaptive jsExact (pixels (drgba (renderRaw jsExact [0x8c, 0x7c, 0, 0, 0, 0])))
                    102 199 0)\<rparr>)"
  using adaptive_path_pipeline [of "[102, 199, 0]" jsExact "[0x8c, 0x7c, 0, 0, 0, 0]" None]
  by simp


lemma hashByte_pad: "hashByte (hash @ replicate k 0) i = hashByte hash i"
  by (simp add: hashByte_def nth_append)

lemma readAC_loop_cong:
  "(\<And>i. hashByte h1 i = hashByte h2 i) \<Longrightarrow>
   readAC_loop h1 a c r off = readAC_loop h2 a c r off"
  by (induction c arbitrary: r off) (simp_all add: Let_def)

lemma readAC_pad: "readAC (hash @ replicate k 0) a c off = readAC hash a c off"
  unfolding readAC_def by (rule readAC_loop_cong) (rule hashByte_pad)

lemma header_pad:
  "headerWord (hash @ replicate k 0) = headerWord hash"
  "header2Word (hash @ replicate k 0) = header2Word hash"
  "alphaHeaderWord (hash @ replicate k 0) = alphaHeaderWord hash"
  by (simp_all only: headerWord_def header2Word_def alphaHeaderWord_def hashByte_pad)

lemma dec_header_pad:
  "dec_lDC (hash @ replicate k 0) = dec_lDC hash"
  "dec_pDC (hash @ replicate k 0) = dec_pDC hash"
  "dec_qDC (hash @ replicate k 0) = dec_qDC hash"
  "dec_lScale (hash @ replicate k 0) = dec_lScale hash"
  "dec_pScale (hash @ replicate k 0) = dec_pScale hash"
  "dec_qScale (hash @ replicate k 0) = dec_qScale hash"
  "dec_hasAlpha (hash @ replicate k 0) = dec_hasAlpha hash"
  "dec_dimFlag (hash @ replicate k 0) = dec_dimFlag hash"
  "dec_isLandscape (hash @ replicate k 0) = dec_isLandscape hash"
  by (simp_all only: dec_lDC_def dec_pDC_def dec_qDC_def dec_lScale_def dec_pScale_def
        dec_qScale_def dec_hasAlpha_def dec_dimFlag_def dec_isLandscape_def header_pad)

lemma dec_basis_pad:
  "dec_lx (hash @ replicate k 0) = dec_lx hash"
  "dec_ly (hash @ replicate k 0) = dec_ly hash"
  "dec_aDC (hash @ replicate k 0) = dec_aDC hash"
  "dec_aScale (hash @ replicate k 0) = dec_aScale hash"
  "dec_acOffset (hash @ replicate k 0) = dec_acOffset hash"
  by (simp_all only: dec_lx_def dec_ly_def dec_lLimit_def dec_aDC_def dec_aScale_def
        dec_acOffset_def dec_header_pad header_pad)

lemma dec_read_pad:
  "dec_lRead (hash @ replicate k 0) = dec_lRead hash"
  "dec_pRead (hash @ replicate k 0) = dec_pRead hash"
  "dec_qRead (hash @ replicate k 0) = dec_qRead hash"
  "dec_aRead (hash @ replicate k 0) = dec_aRead hash"
proof -
  show l: "dec_lRead (hash @ replicate k 0) = dec_lRead hash"
    by (simp only: dec_lRead_def dec_basis_pad readAC_pad)
  show p: "dec_pRead (hash @ replicate k 0) = dec_pRead hash"
    by (simp only: dec_pRead_def dec_basis_pad readAC_pad l)
  show q: "dec_qRead (hash @ replicate k 0) = dec_qRead hash"
    by (simp only: dec_qRead_def dec_basis_pad readAC_pad p)
  show "dec_aRead (hash @ replicate k 0) = dec_aRead hash"
    by (simp only: dec_aRead_def dec_basis_pad dec_header_pad readAC_pad q)
qed

lemma decodePixel_pad:
  "decodePixel E (hash @ replicate k 0) w h x y = decodePixel E hash w h x y"
  by (simp only: decodePixel_def pixelValues_def dec_header_pad dec_basis_pad dec_read_pad
        dec_lAC_def dec_pAC_def dec_qAC_def dec_aAC_def)

lemma renderRaw_pad: "renderRaw E (hash @ replicate k 0) = renderRaw E hash"
  by (simp only: renderRaw_def dec_w_def dec_h_def dec_ratio_def dec_header_pad dec_basis_pad
        decodePixel_pad)

lemma thumbHashToRGBA_Inr:
  "thumbHashToRGBA E hash chroma
   = Inr ((renderRaw E hash)\<lparr>drgba := (case chroma of None \<Rightarrow> drgba (renderRaw E hash)
             | Some c \<Rightarrow> if c < 1 then attenuateChroma (drgba (renderRaw E hash)) c
                        else drgba (renderRaw E hash))\<rparr>)"
  by (simp add: thumbHashToRGBA_def Let_def)

text \<open>The rendering loops store the four bytes of every pixel at its place, and no store
  touches another pixel.\<close>

lemma storePixel_nth:
  assumes "idx + 3 < length buf"
  shows "\<forall>c < 4. storePixel buf idx px ! (idx + c) = px ! c"
    and "\<forall>j. j < idx \<or> idx + 4 \<le> j \<longrightarrow> storePixel buf idx px ! j = buf ! j"
proof -
  have c: "c = 0 \<or> c = 1 \<or> c = 2 \<or> c = 3" if "c < 4" for c :: nat using that by auto
  show "\<forall>c < 4. storePixel buf idx px ! (idx + c) = px ! c"
    using assms by (auto simp: storePixel_def dest!: c)
  show "\<forall>j. j < idx \<or> idx + 4 \<le> j \<longrightarrow> storePixel buf idx px ! j = buf ! j"
    by (auto simp: storePixel_def)
qed

lemma row_store:
  assumes "(off + n) * 4 \<le> length buf"
  shows "(\<forall>x < n. \<forall>c < 4.
            fold (\<lambda>x b. storePixel b ((off + x) * 4) (g x)) [0..<n] buf ! ((off + x) * 4 + c)
            = g x ! c)
         \<and> (\<forall>j. j < off * 4 \<or> (off + n) * 4 \<le> j \<longrightarrow>
            fold (\<lambda>x b. storePixel b ((off + x) * 4) (g x)) [0..<n] buf ! j = buf ! j)"
  using assms
proof (induction n)
  case 0
  then show ?case by simp
next
  case (Suc n)
  let ?R = "fold (\<lambda>x b. storePixel b ((off + x) * 4) (g x)) [0..<n] buf"
  have len: "length ?R = length buf" by (rule length_render_row)
  have ih: "\<forall>x < n. \<forall>c < 4. ?R ! ((off + x) * 4 + c) = g x ! c"
    and ih': "\<forall>j. j < off * 4 \<or> (off + n) * 4 \<le> j \<longrightarrow> ?R ! j = buf ! j"
    using Suc by simp_all
  have i: "(off + n) * 4 + 3 < length ?R" using Suc.prems len by simp
  note st = storePixel_nth [OF i, of "g n"]
  have step: "fold (\<lambda>x b. storePixel b ((off + x) * 4) (g x)) [0..<Suc n] buf
              = storePixel ?R ((off + n) * 4) (g n)"
    by simp
  show ?case
    unfolding step
  proof (intro conjI allI impI)
    fix x c :: nat
    assume x: "x < Suc n" and c: "c < 4"
    show "storePixel ?R ((off + n) * 4) (g n) ! ((off + x) * 4 + c) = g x ! c"
    proof (cases "x = n")
      case True
      then show ?thesis using st(1) c by simp
    next
      case False
      then have xn: "x < n" using x by simp
      then have "(off + x) * 4 + c < (off + n) * 4" using c by simp
      then have "storePixel ?R ((off + n) * 4) (g n) ! ((off + x) * 4 + c)
                 = ?R ! ((off + x) * 4 + c)"
        using st(2) by blast
      then show ?thesis using ih xn c by simp
    qed
  next
    fix j :: nat
    assume j: "j < off * 4 \<or> (off + Suc n) * 4 \<le> j"
    then have "j < (off + n) * 4 \<or> (off + n) * 4 + 4 \<le> j" by auto
    then have "storePixel ?R ((off + n) * 4) (g n) ! j = ?R ! j" using st(2) by blast
    moreover have "?R ! j = buf ! j" using ih' j by auto
    ultimately show "storePixel ?R ((off + n) * 4) (g n) ! j = buf ! j" by simp
  qed
qed

lemma render_store:
  assumes "m \<le> h" "length buf = w * h * 4"
  shows "\<forall>y < m. \<forall>x < w. \<forall>c < 4.
            fold (\<lambda>y b. fold (\<lambda>x b. storePixel b ((y * w + x) * 4) (G y x)) [0..<w] b) [0..<m] buf
              ! ((y * w + x) * 4 + c) = G y x ! c"
  using assms(1)
proof (induction m)
  case 0
  then show ?case by simp
next
  case (Suc m)
  let ?R = "fold (\<lambda>y b. fold (\<lambda>x b. storePixel b ((y * w + x) * 4) (G y x)) [0..<w] b) [0..<m] buf"
  have len: "length ?R = length buf" by (rule length_render)
  have ih: "\<forall>y < m. \<forall>x < w. \<forall>c < 4. ?R ! ((y * w + x) * 4 + c) = G y x ! c"
    using Suc by simp
  have "(m + 1) * w \<le> h * w" using Suc.prems by (intro mult_le_mono1) simp
  then have fit: "(m * w + w) * 4 \<le> length ?R" using len assms(2) by (simp add: mult.commute)
  note row = row_store [OF fit, of "G m"]
  have step: "fold (\<lambda>y b. fold (\<lambda>x b. storePixel b ((y * w + x) * 4) (G y x)) [0..<w] b)
                [0..<Suc m] buf
              = fold (\<lambda>x b. storePixel b ((m * w + x) * 4) (G m x)) [0..<w] ?R"
    by simp
  show ?case
    unfolding step
  proof (intro allI impI)
    fix y x c :: nat
    assume y: "y < Suc m" and x: "x < w" and c: "c < 4"
    show "fold (\<lambda>x b. storePixel b ((m * w + x) * 4) (G m x)) [0..<w] ?R ! ((y * w + x) * 4 + c)
          = G y x ! c"
    proof (cases "y = m")
      case True
      then show ?thesis using row x c by simp
    next
      case False
      then have ym: "y < m" using y by simp
      then have "(y + 1) * w \<le> m * w" by (intro mult_le_mono1) simp
      then have "(y * w + x) * 4 + c < m * w * 4" using x c by simp
      then have "fold (\<lambda>x b. storePixel b ((m * w + x) * 4) (G m x)) [0..<w] ?R
                   ! ((y * w + x) * 4 + c) = ?R ! ((y * w + x) * 4 + c)"
        using row by blast
      then show ?thesis using ih ym x c by simp
    qed
  qed
qed

lemma renderRaw_pixel:
  assumes "x < dw (renderRaw E hash)" "y < dh (renderRaw E hash)" "c < 4"
  shows "drgba (renderRaw E hash) ! ((y * dw (renderRaw E hash) + x) * 4 + c)
         = chanByte (pixelValues E hash (dw (renderRaw E hash)) (dh (renderRaw E hash)) x y ! c)"
proof -
  let ?w = "dec_w hash"
  let ?h = "dec_h hash"
  have d: "dw (renderRaw E hash) = ?w" "dh (renderRaw E hash) = ?h"
    by (simp_all add: renderRaw_def Let_def)
  have r: "drgba (renderRaw E hash)
           = fold (\<lambda>y b. fold (\<lambda>x b. storePixel b ((y * ?w + x) * 4) (decodePixel E hash ?w ?h x y))
                            [0..<?w] b) [0..<?h] (replicate (?w * ?h * 4) 0)"
    by (simp add: renderRaw_def Let_def)
  have "drgba (renderRaw E hash) ! ((y * ?w + x) * 4 + c) = decodePixel E hash ?w ?h x y ! c"
    unfolding r
    using render_store [of ?h ?h "replicate (?w * ?h * 4) 0" ?w "\<lambda>y x. decodePixel E hash ?w ?h x y"]
      assms
    by (simp add: d)
  moreover have "length (pixelValues E hash ?w ?h x y) = 4"
    by (simp add: pixelValues_def Let_def)
  ultimately show ?thesis
    using assms(3) by (simp add: d decodePixel_def)
qed

text \<open>The byte stored for a channel value is the value scaled to \<open>[0, 255]\<close> and clamped.\<close>

lemma chanByte_clamp: "int (unat (chanByte v)) = specClamp v"
proof (cases v)
  case None
  then show ?thesis by (simp add: chanByte_def specClamp_def)
next
  case (Some t)
  let ?n = "max 0 (min 255 (jsRound (dmul t 255)))"
  have n: "0 \<le> ?n" "?n \<le> 255" by simp_all
  then have "uint (word_of_int ?n :: byte) = ?n"
    by (simp add: uint_word_of_int_eq take_bit_int_eq_self)
  then have "int (unat (chanByte v)) = ?n"
    by (simp add: chanByte_def Some toUint8_def)
  then show ?thesis
    by (simp add: specClamp_def Some)
qed

text \<open>
  C3 (as amended). For every input, of any length, \<^verbatim>\<open>thumbHashToRGBA\<close> returns a bitmap
  and no error: a byte past the end of the input (in the header, the alpha header or
  the AC nibble stream) is read as 0, so the result is that of the input padded with
  zero bytes. No validation is performed, and a channel value out of range is clamped
  silently: the byte stored for channel \<open>c\<close> of pixel \<open>(x, y)\<close> is \<open>round (255 v)\<close> for the
  value \<open>v\<close> the inverse DCT gives, 0 when that is negative (or \<open>v\<close> is NaN) and 255 when
  it exceeds 255.
\<close>

theorem decode_total_zero_padded:
  "(\<exists>d. thumbHashToRGBA E hash chroma = Inr d)
   \<and> thumbHashToRGBA E (hash @ replicate k 0) chroma = thumbHashToRGBA E hash chroma
   \<and> (\<exists>d. thumbHashToRGBA E hash None = Inr d \<and> length (drgba d) = dw d * dh d * 4
        \<and> (\<forall>x y c. x < dw d \<and> y < dh d \<and> c < 4 \<longrightarrow>
             int (unat (drgba d ! ((y * dw d + x) * 4 + c)))
             = specClamp (pixelValues E hash (dw d) (dh d) x y ! c)))"
proof (intro conjI)
  show "\<exists>d. thumbHashToRGBA E hash chroma = Inr d"
    by (simp add: thumbHashToRGBA_Inr)
  show "thumbHashToRGBA E (hash @ replicate k 0) chroma = thumbHashToRGBA E hash chroma"
    unfolding thumbHashToRGBA_def renderRaw_pad by (simp add: Let_def)
  let ?d = "renderRaw E hash"
  have "length (drgba ?d) = dw ?d * dh ?d * 4"
    using length_renderRaw [of E hash] by simp
  moreover have "\<forall>x y c. x < dw ?d \<and> y < dh ?d \<and> c < 4 \<longrightarrow>
             int (unat (drgba ?d ! ((y * dw ?d + x) * 4 + c)))
             = specClamp (pixelValues E hash (dw ?d) (dh ?d) x y ! c)"
  proof (intro allI impI)
    fix x y c :: nat
    assume a: "x < dw ?d \<and> y < dh ?d \<and> c < 4"
    then have "drgba ?d ! ((y * dw ?d + x) * 4 + c)
               = chanByte (pixelValues E hash (dw ?d) (dh ?d) x y ! c)"
      by (intro renderRaw_pixel) simp_all
    then show "int (unat (drgba ?d ! ((y * dw ?d + x) * 4 + c)))
               = specClamp (pixelValues E hash (dw ?d) (dh ?d) x y ! c)"
      by (simp only: chanByte_clamp)
  qed
  ultimately show "\<exists>d. thumbHashToRGBA E hash None = Inr d \<and> length (drgba d) = dw d * dh d * 4
        \<and> (\<forall>x y c. x < dw d \<and> y < dh d \<and> c < 4 \<longrightarrow>
             int (unat (drgba d ! ((y * dw d + x) * 4 + c)))
             = specClamp (pixelValues E hash (dw d) (dh d) x y ! c))"
    unfolding thumbHashToRGBA_None by blast
qed

lemma dec_empty:
  "dec_isLandscape [] = False" "dec_lx [] = 1" "dec_ly [] = 7"
  by (simp_all add: dec_isLandscape_def dec_lx_def dec_ly_def dec_lLimit_def dec_hasAlpha_def
        dec_dimFlag_def headerWord_def hashByte_def)

lemma dims_empty: "dec_w [] = 5 \<and> dec_h [] = 32"
proof -
  have r: "dec_ratio [] = 7"
    using rnd64_nat [of 7] by (simp add: dec_ratio_def dec_empty ddiv_def)
  have "of_int 9 / 2 ^ 1 \<le> rnd64 (32 / 7)" by (rule rnd64_ge) simp_all
  moreover have "rnd64 (32 / 7) \<le> of_int 5 / 2 ^ 0" by (rule rnd64_le) simp_all
  ultimately have a: "\<lfloor>rnd64 (32 / 7) + 1 / 2\<rfloor> = 5" by (simp add: floor_eq_iff)
  have b: "\<lfloor>32 + 1 / 2 :: real\<rfloor> = 32" by (simp add: floor_eq_iff)
  show ?thesis
    using a b by (simp add: dec_w_def dec_h_def r dec_empty jsRound_def ddiv_def)
qed

theorem decode_total_zero_padded_witness:
  "(0 :: nat) < dw (projr (thumbHashToRGBA jsExact [] None))
   \<and> (0 :: nat) < dh (projr (thumbHashToRGBA jsExact [] None)) \<and> (0 :: nat) < 4
   \<and> int (unat (drgba (projr (thumbHashToRGBA jsExact [] None)) ! 0))
     = specClamp (pixelValues jsExact [] 5 32 0 0 ! 0)"
proof -
  have d: "dw (renderRaw jsExact []) = 5" "dh (renderRaw jsExact []) = 32"
    using dims_empty by (simp_all add: renderRaw_def Let_def)
  from decode_total_zero_padded [of jsExact "[]" None 0]
  have "\<forall>x y c. x < 5 \<and> y < 32 \<and> c < 4 \<longrightarrow>
          int (unat (drgba (renderRaw jsExact []) ! ((y * 5 + x) * 4 + c)))
          = specClamp (pixelValues jsExact [] 5 32 x y ! c)"
    by (simp add: thumbHashToRGBA_None d)
  then have "int (unat (drgba (renderRaw jsExact []) ! ((0 * 5 + 0) * 4 + 0)))
          = specClamp (pixelValues jsExact [] 5 32 0 0 ! 0)"
    by (metis (no_types) zero_less_numeral)
  then show ?thesis by (simp add: thumbHashToRGBA_None d)
qed

theorem decode_short_counterexample:
  "length ([] :: byte list) < 6
   \<and> thumbHashToRGBA jsExact [] None \<noteq> Inl TruncatedHash
   \<and> thumbHashToRGBA jsExact [] None \<noteq> Inl MalformedBasis
   \<and> dw (projr (thumbHashToRGBA jsExact [] None)) = 5
   \<and> dh (projr (thumbHashToRGBA jsExact [] None)) = 32"
  using dims_empty by (simp add: thumbHashToRGBA_Inr renderRaw_def Let_def)

lemma attenuateChroma_zero_gray:
  assumes "length rgba = 4 * n" "k < n"
  shows "attenuateChroma rgba 0 ! (4 * k) = attenuateChroma rgba 0 ! (4 * k + 1)
         \<and> attenuateChroma rgba 0 ! (4 * k + 1) = attenuateChroma rgba 0 ! (4 * k + 2)"
proof -
  have lp: "length (pixels rgba) = n" using assms(1) by (rule length_pixels)
  have gray: "\<exists>v a. specAttenuate 0 px = (v, v, v, a)" for px
    by (simp add: specAttenuate_def Let_def dmul_0)
  have nth_flat: "k < length ps \<Longrightarrow>
      flatten ps ! (4 * k) = fst (ps ! k)
      \<and> flatten ps ! (4 * k + 1) = fst (snd (ps ! k))
      \<and> flatten ps ! (4 * k + 2) = fst (snd (snd (ps ! k)))" for ps k
  proof (induction ps arbitrary: k)
    case Nil
    then show ?case by simp
  next
    case (Cons p ps)
    obtain r g b a where p: "p = (r, g, b, a)" by (cases p) auto
    show ?case
    proof (cases k)
      case 0
      then show ?thesis by (simp add: p flatten_Cons)
    next
      case (Suc j)
      with Cons.prems have "j < length ps" by simp
      from Cons.IH [OF this] show ?thesis
        by (simp add: p flatten_Cons Suc)
    qed
  qed
  let ?ps = "map (specAttenuate 0) (pixels rgba)"
  have k: "k < length ?ps" using assms(2) lp by simp
  obtain v a where va: "?ps ! k = (v, v, v, a)"
    using gray [of "pixels rgba ! k"] k by auto
  have "attenuateChroma rgba 0 = flatten ?ps"
    using attenuateChroma_pixelwise [OF assms(1), of 0] by simp
  with nth_flat [OF k] va show ?thesis by simp
qed

text \<open>
  C9. For every hash, decoding with \<open>chroma = 0\<close> returns a bitmap of \<open>w * h\<close> pixels in
  which R, G and B of every pixel are equal, and decoding with any \<open>chroma \<ge> 1\<close>
  returns what decoding without a chroma parameter returns.
\<close>

theorem chroma_zero_gray_ge_one_noop:
  "(case thumbHashToRGBA E hash (Some 0) of
      Inl e \<Rightarrow> False
    | Inr d \<Rightarrow> length (drgba d) = 4 * (dw d * dh d)
        \<and> (\<forall>k < dw d * dh d. drgba d ! (4 * k) = drgba d ! (4 * k + 1)
                             \<and> drgba d ! (4 * k + 1) = drgba d ! (4 * k + 2)))
   \<and> (\<forall>c \<ge> 1. thumbHashToRGBA E hash (Some c) = thumbHashToRGBA E hash None)"
proof -
  let ?raw = "drgba (renderRaw E hash)"
  let ?n = "dw (renderRaw E hash) * dh (renderRaw E hash)"
  have len: "length ?raw = 4 * ?n" by (rule length_renderRaw)
  have len': "length (attenuateChroma ?raw 0) = 4 * ?n"
    using attenuateChroma_pixelwise [OF len, of 0]
    by (simp add: length_flatten length_pixels [OF len])
  have gray: "\<forall>k < ?n. attenuateChroma ?raw 0 ! (4 * k) = attenuateChroma ?raw 0 ! (4 * k + 1)
         \<and> attenuateChroma ?raw 0 ! (4 * k + 1) = attenuateChroma ?raw 0 ! (4 * k + 2)"
    using attenuateChroma_zero_gray [OF len] by blast
  have noop: "\<forall>c \<ge> 1. thumbHashToRGBA E hash (Some c) = thumbHashToRGBA E hash None"
    by (simp add: thumbHashToRGBA_Inr)
  show ?thesis
    using len' gray noop by (simp add: thumbHashToRGBA_Inr)
qed

theorem chroma_zero_gray_ge_one_noop_witness:
  "(0 :: nat) < dw (projr (thumbHashToRGBA jsExact [] (Some 0))) * dh (projr (thumbHashToRGBA jsExact [] (Some 0)))
   \<and> drgba (projr (thumbHashToRGBA jsExact [] (Some 0))) ! 0 = drgba (projr (thumbHashToRGBA jsExact [] (Some 0))) ! 1
   \<and> drgba (projr (thumbHashToRGBA jsExact [] (Some 0))) ! 1 = drgba (projr (thumbHashToRGBA jsExact [] (Some 0))) ! 2
   \<and> (1 :: real) \<ge> 1
   \<and> thumbHashToRGBA jsExact [] (Some 1) = thumbHashToRGBA jsExact [] None"
proof -
  have pos: "0 < dw (renderRaw jsExact []) * dh (renderRaw jsExact [])"
    using renderRaw_dims_pos [of jsExact "[]"] by simp
  let ?out = "attenuateChroma (drgba (renderRaw jsExact [])) 0"
  from chroma_zero_gray_ge_one_noop [of jsExact "[]"]
  have all: "\<forall>k < dw (renderRaw jsExact []) * dh (renderRaw jsExact []).
           ?out ! (4 * k) = ?out ! (4 * k + 1) \<and> ?out ! (4 * k + 1) = ?out ! (4 * k + 2)"
    and noop: "thumbHashToRGBA jsExact [] (Some 1) = thumbHashToRGBA jsExact [] None"
    by (simp_all add: thumbHashToRGBA_Inr)
  from all pos have "?out ! (4 * 0) = ?out ! (4 * 0 + 1) \<and> ?out ! (4 * 0 + 1) = ?out ! (4 * 0 + 2)"
    by blast
  then show ?thesis
    using pos noop by (simp add: thumbHashToRGBA_Inr numeral_2_eq_2)
qed

section \<open>The encoder: loops, totality and ranges\<close>

lemma forUpto_0: "forUpto 0 body s = Some s"
  by (simp add: forUpto_def)

lemma forUpto_Suc: "forUpto (Suc n) body s = Option.bind (forUpto n body s) (body n)"
  by (simp add: forUpto_def)

text \<open>Total correctness of a loop from an invariant that every iteration keeps.\<close>

lemma forUpto_inv:
  assumes "P 0 s"
    and "\<And>i s. i < n \<Longrightarrow> P i s \<Longrightarrow> \<exists>s'. body i s = Some s' \<and> P (Suc i) s'"
  shows "\<exists>s'. forUpto n body s = Some s' \<and> P n s'"
  using assms(2)
proof (induction n)
  case 0
  then show ?case using assms(1) by (simp add: forUpto_0)
next
  case (Suc n)
  then obtain s1 where s1: "forUpto n body s = Some s1" "P n s1"
    by (metis less_Suc_eq)
  from Suc.prems [of n s1] s1 show ?case
    by (simp add: forUpto_Suc)
qed

text \<open>Two runs of a loop from related states, when every iteration keeps the relation.\<close>

lemma forUpto_rel:
  assumes "R s t"
    and "\<And>i s t. i < n \<Longrightarrow> R s t \<Longrightarrow> rel_option R (body i s) (body' i t)"
  shows "rel_option R (forUpto n body s) (forUpto n body' t)"
  using assms(2)
proof (induction n)
  case 0
  then show ?case using assms(1) by (simp add: forUpto_0)
next
  case (Suc n)
  then have ih: "rel_option R (forUpto n body s) (forUpto n body' t)"
    by (metis less_Suc_eq)
  show ?case
  proof (cases "forUpto n body s")
    case None
    with ih show ?thesis by (cases "forUpto n body' t") (simp_all add: forUpto_Suc)
  next
    case (Some s1)
    with ih obtain t1 where t1: "forUpto n body' t = Some t1" "R s1 t1"
      by (cases "forUpto n body' t") simp_all
    from Suc.prems [of n s1 t1] t1 Some show ?thesis
      by (simp add: forUpto_Suc)
  qed
qed

lemma slice_Some: "lo \<le> hi \<Longrightarrow> hi \<le> length xs \<Longrightarrow>
   slice xs lo hi = Some (take (hi - lo) (drop lo xs))"
  by (simp add: slice_def)

lemma rd_Some: "i < length xs \<Longrightarrow> rd xs i = Some (xs ! i)"
  by (simp add: rd_def)

lemma wr_Some: "i < length xs \<Longrightarrow> wr xs i v = Some (xs[i := v])"
  by (simp add: wr_def)

text \<open>The averaging loop reads inside the slice.\<close>

lemma idx4: "i < count \<Longrightarrow> c < 4 \<Longrightarrow> i * 4 + c < count * 4" for i count c :: nat
  by simp

lemma avgAlpha_total:
  assumes "length rgba = count * 4"
  shows "\<exists>a. avgAlpha count rgba = Some a"
proof -
  let ?body = "\<lambda>i (avgR, avgG, avgB, avgA). do {
        a \<leftarrow> rd rgba (i * 4 + 3);
        r \<leftarrow> rd rgba (i * 4);
        g \<leftarrow> rd rgba (i * 4 + 1);
        b \<leftarrow> rd rgba (i * 4 + 2);
        Some (rnd32 (avgR + rnd32 (a * r)), rnd32 (avgG + rnd32 (a * g)),
              rnd32 (avgB + rnd32 (a * b)), rnd32 (avgA + a)) }"
  have "\<exists>s'. forUpto count ?body (0, 0, 0, 0) = Some s' \<and> True"
  proof (rule forUpto_inv [where P = "\<lambda>_ _. True"])
    fix i and s :: "real \<times> real \<times> real \<times> real"
    assume i: "i < count"
    obtain a b c d where s: "s = (a, b, c, d)" by (cases s) auto
    have "i * 4 + 3 < length rgba" "i * 4 < length rgba" "i * 4 + 1 < length rgba"
         "i * 4 + 2 < length rgba"
      using i assms by simp_all
    then show "\<exists>s'. ?body i s = Some s' \<and> True"
      by (simp add: s rd_Some)
  qed simp
  then obtain s' where "forUpto count ?body (0, 0, 0, 0) = Some s'" by blast
  then show ?thesis
    by (cases s') (simp add: avgAlpha_def Let_def split: prod.splits)
qed


lemma lpq_range:
  fixes r g b :: real
  assumes "0 \<le> r" "r \<le> 1" "0 \<le> g" "g \<le> 1" "0 \<le> b" "b \<le> 1"
  shows "0 \<le> (r + g + b) / 3 \<and> (r + g + b) / 3 \<le> 1
         \<and> \<bar>(r + g) / 2 - b\<bar> \<le> 1 \<and> \<bar>r - g\<bar> \<le> 1"
  using assms by (auto simp: abs_le_iff field_simps)

lemma lpqa_values:
  fixes r0 g0 b0 af :: real
  assumes "0 \<le> r0" "r0 \<le> 1" "0 \<le> g0" "g0 \<le> 1" "0 \<le> b0" "b0 \<le> 1" "0 \<le> af" "af \<le> 1"
  shows "0 \<le> (r0 * af + g0 * af + b0 * af) / 3 \<and> (r0 * af + g0 * af + b0 * af) / 3 \<le> 1
         \<and> \<bar>(r0 * af + g0 * af) / 2 - b0 * af\<bar> \<le> 1 \<and> \<bar>r0 * af - g0 * af\<bar> \<le> 1"
proof -
  have "0 \<le> r0 * af" "r0 * af \<le> 1" "0 \<le> g0 * af" "g0 * af \<le> 1" "0 \<le> b0 * af" "b0 * af \<le> 1"
    using assms by (simp_all add: mult_le_one)
  then show ?thesis by (rule lpq_range)
qed

lemma nth_pixel_update_other:
  fixes buf :: "real list"
  assumes "k \<noteq> i" "c < 4"
  shows "buf[i * 4 := v0, i * 4 + 1 := v1, i * 4 + 2 := v2] ! (k * 4 + c) = buf ! (k * 4 + c)"
proof -
  have "k * 4 + c \<noteq> i * 4" "k * 4 + c \<noteq> i * 4 + 1" "k * 4 + c \<noteq> i * 4 + 2"
    using assms by presburger+
  then show ?thesis by simp
qed

lemma nth_pixel_update_same:
  fixes buf :: "real list"
  assumes "i * 4 + 3 < length buf"
  shows "buf[i * 4 := v0, i * 4 + 1 := v1, i * 4 + 2 := v2] ! (i * 4) = v0"
    and "buf[i * 4 := v0, i * 4 + 1 := v1, i * 4 + 2 := v2] ! (i * 4 + 1) = v1"
    and "buf[i * 4 := v0, i * 4 + 1 := v1, i * 4 + 2 := v2] ! (i * 4 + 2) = v2"
    and "buf[i * 4 := v0, i * 4 + 1 := v1, i * 4 + 2 := v2] ! (i * 4 + 3) = buf ! (i * 4 + 3)"
  using assms by simp_all

lemma toLPQA_total:
  assumes len: "length rgba = count * 4"
  shows "\<exists>buf. toLPQA count rgba = Some buf \<and> length buf = count * 4
           \<and> (proxy01 count rgba \<longrightarrow> lpqaRange count buf)"
proof -
  define L where "L = (\<lambda>(buf :: real list) k. 0 \<le> buf ! (k * 4) \<and> buf ! (k * 4) \<le> 1
                  \<and> \<bar>buf ! (k * 4 + 1)\<bar> \<le> 1 \<and> \<bar>buf ! (k * 4 + 2)\<bar> \<le> 1
                  \<and> 0 \<le> buf ! (k * 4 + 3) \<and> buf ! (k * 4 + 3) \<le> 1)"
  define U where "U = (\<lambda>(buf :: real list) k.
                  \<forall>c < 4. 0 \<le> buf ! (k * 4 + c) \<and> buf ! (k * 4 + c) \<le> 1)"
  define P where "P = (\<lambda>(i :: nat) (buf :: real list). length buf = count * 4
       \<and> (proxy01 count rgba \<longrightarrow>
            (\<forall>k < count. (k < i \<longrightarrow> L buf k) \<and> (i \<le> k \<longrightarrow> U buf k))))"
  let ?body = "\<lambda>i rgba. do {
     let off = i * 4;
     af \<leftarrow> rd rgba (off + 3);
     r0 \<leftarrow> rd rgba off;
     g0 \<leftarrow> rd rgba (off + 1);
     b0 \<leftarrow> rd rgba (off + 2);
     let r = r0 * af;
     let g = g0 * af;
     let b = b0 * af;
     rgba \<leftarrow> wr rgba off ((r + g + b) / 3);
     rgba \<leftarrow> wr rgba (off + 1) ((r + g) / 2 - b);
     wr rgba (off + 2) (r - g) }"
  have P0: "P 0 rgba"
    unfolding P_def U_def proxy01_def using len by (auto intro: idx4)
  have step: "\<exists>s'. ?body i buf = Some s' \<and> P (Suc i) s'" if i: "i < count" and inv: "P i buf"
    for i buf
  proof -
    have lb: "length buf = count * 4" using inv by (simp add: P_def)
    have ix: "i * 4 + 3 < length buf" "i * 4 < length buf" "i * 4 + 1 < length buf"
         "i * 4 + 2 < length buf"
      using i lb by simp_all
    define af r0 g0 b0 where "af = buf ! (i * 4 + 3)" and "r0 = buf ! (i * 4)"
      and "g0 = buf ! (i * 4 + 1)" and "b0 = buf ! (i * 4 + 2)"
    define buf' where "buf' = buf[i * 4 := (r0 * af + g0 * af + b0 * af) / 3,
        i * 4 + 1 := (r0 * af + g0 * af) / 2 - b0 * af, i * 4 + 2 := r0 * af - g0 * af]"
    have run: "?body i buf = Some buf'"
      using ix by (simp add: rd_Some wr_Some Let_def buf'_def af_def r0_def g0_def b0_def)
    have i3: "i * 4 + 3 < length buf" using ix by simp
    note same = nth_pixel_update_same [OF i3, where ?v0.0 = "(r0 * af + g0 * af + b0 * af) / 3"
        and ?v1.0 = "(r0 * af + g0 * af) / 2 - b0 * af" and ?v2.0 = "r0 * af - g0 * af",
        folded buf'_def]
    have other: "buf' ! (k * 4 + c) = buf ! (k * 4 + c)" if "k \<noteq> i" "c < 4" for k c
      unfolding buf'_def using that by (rule nth_pixel_update_other)
    have l': "length buf' = count * 4" using lb by (simp add: buf'_def)
    have "(k < Suc i \<longrightarrow> L buf' k) \<and> (Suc i \<le> k \<longrightarrow> U buf' k)"
      if pr: "proxy01 count rgba" and k: "k < count" for k
    proof -
      have old: "U buf i"
        using inv pr i by (simp add: P_def)
      have vals: "0 \<le> r0" "r0 \<le> 1" "0 \<le> g0" "g0 \<le> 1" "0 \<le> b0" "b0 \<le> 1" "0 \<le> af" "af \<le> 1"
        using old [unfolded U_def, rule_format, of 0] old [unfolded U_def, rule_format, of 1]
          old [unfolded U_def, rule_format, of 2] old [unfolded U_def, rule_format, of 3]
        by (simp_all add: af_def r0_def g0_def b0_def)
      note new = lpqa_values [OF vals]
      have Li: "L buf' i"
        unfolding L_def using new vals(7,8) same by (simp add: af_def)
      have Lk: "L buf' k" if "k < i"
      proof -
        have ne: "k \<noteq> i" using that by simp
        have "L buf k" using inv pr k that by (simp add: P_def)
        then show ?thesis
          unfolding L_def
          using other [OF ne, of 0] other [OF ne, of 1] other [OF ne, of 2] other [OF ne, of 3]
          by simp
      qed
      have Uk: "U buf' k" if "Suc i \<le> k"
      proof -
        have ne: "k \<noteq> i" using that by simp
        have "U buf k" using inv pr k that by (simp add: P_def)
        then show ?thesis
          unfolding U_def using other [OF ne] by simp
      qed
      show ?thesis
        using Li Lk Uk by (metis less_Suc_eq)
    qed
    then have "P (Suc i) buf'"
      unfolding P_def using l' by blast
    with run show ?thesis by blast
  qed
  have "\<exists>s'. forUpto count ?body rgba = Some s' \<and> P count s'"
    using P0 step by (rule forUpto_inv)
  then show ?thesis
    unfolding toLPQA_def P_def lpqaRange_def L_def by auto
qed


lemma cell_less: "c < n \<Longrightarrow> x < w \<Longrightarrow> c * w + x < n * w" for c n x w :: nat
proof -
  assume c: "c < n" and x: "x < w"
  have "c * w + x < Suc c * w" using x by simp
  also have "\<dots> \<le> n * w" using c by (intro mult_le_mono1) simp
  finally show ?thesis .
qed

lemma cosTable_fill:
  assumes len: "length tbl = maxN * w"
  shows "cosTable maxN w tbl = Some (map (cosEntry w) [0..<maxN * w])"
proof -
  define P where "P = (\<lambda>(n :: nat) (t :: real list).
     length t = maxN * w \<and> (\<forall>j < n. t ! j = cosEntry w j))"
  let ?inner = "\<lambda>c. \<lambda>x tbl. wr tbl (c * w + x) (cos (pi * real c / real w * (real x + 0.5)))"
  have inner: "\<exists>t'. forUpto w (?inner c) t = Some t' \<and> P (Suc c * w) t'"
    if c: "c < maxN" and inv: "P (c * w) t" for c t
  proof -
    have "\<exists>t'. forUpto w (?inner c) t = Some t' \<and> P (c * w + w) t'"
    proof (rule forUpto_inv [where P = "\<lambda>x t. P (c * w + x) t"])
      show "P (c * w + 0) t" using inv by simp
    next
      fix x t
      assume x: "x < w" and q: "P (c * w + x) t"
      have lt: "c * w + x < length t"
        using q cell_less [OF c x] by (simp add: P_def)
      have e: "cosEntry w (c * w + x) = cos (pi * real c / real w * (real x + 0.5))"
        using x by (simp add: cosEntry_def)
      have "P (c * w + Suc x) (t[c * w + x := cos (pi * real c / real w * (real x + 0.5))])"
        unfolding P_def using q lt e
        by (auto simp: P_def nth_list_update less_Suc_eq)
      then show "\<exists>s'. ?inner c x t = Some s' \<and> P (c * w + Suc x) s'"
        using lt by (simp add: wr_Some)
    qed
    then show ?thesis by (simp add: add.commute)
  qed
  have "\<exists>t'. forUpto maxN (\<lambda>c tbl. forUpto w (?inner c) tbl) tbl = Some t' \<and> P (maxN * w) t'"
  proof (rule forUpto_inv [where P = "\<lambda>c t. P (c * w) t"])
    show "P (0 * w) tbl" by (simp add: P_def len)
  next
    fix c t
    assume "c < maxN" "P (c * w) t"
    then show "\<exists>s'. forUpto w (?inner c) t = Some s' \<and> P (Suc c * w) s'"
      by (rule inner)
  qed
  then obtain t' where t': "cosTable maxN w tbl = Some t'" "P (maxN * w) t'"
    by (auto simp: cosTable_def Let_def)
  have "t' = map (cosEntry w) [0..<maxN * w]"
    using t'(2) by (intro nth_equalityI) (simp_all add: P_def)
  with t'(1) show ?thesis by simp
qed


lemma term_bound:
  fixes d c fy :: real
  assumes "\<bar>d\<bar> \<le> 1" "\<bar>c\<bar> \<le> 1" "\<bar>fy\<bar> \<le> 1"
  shows "\<bar>d * c * fy\<bar> \<le> 1"
proof -
  have "\<bar>d * c\<bar> \<le> 1" using assms by (simp add: abs_mult mult_le_one)
  then show ?thesis using assms(3) by (simp add: abs_mult [of "d * c"] mult_le_one)
qed

lemma dctSum_total:
  assumes len: "length data = w * h * 4" and c: "chanOff < 4"
    and lx: "cxBase + w \<le> length cosX" and ly: "cyBase + h \<le> length cosY"
  shows "\<exists>f. dctSum data chanOff 4 w h cosX cosY cxBase cyBase = Some f
     \<and> (chanBounded data (w * h) chanOff \<and> tblBounded cosX cxBase w \<and> tblBounded cosY cyBase h
          \<longrightarrow> \<bar>f\<bar> \<le> real (w * h))
     \<and> (chanNonneg data (w * h) chanOff \<and> tblNonneg cosX cxBase w \<and> tblNonneg cosY cyBase h
          \<longrightarrow> 0 \<le> f)"
proof -
  define Bd where "Bd \<longleftrightarrow> chanBounded data (w * h) chanOff \<and> tblBounded cosX cxBase w
                          \<and> tblBounded cosY cyBase h"
  define Nn where "Nn \<longleftrightarrow> chanNonneg data (w * h) chanOff \<and> tblNonneg cosX cxBase w
                          \<and> tblNonneg cosY cyBase h"
  define P where "P = (\<lambda>(n :: nat) (f :: real). (Bd \<longrightarrow> \<bar>f\<bar> \<le> real n) \<and> (Nn \<longrightarrow> 0 \<le> f))"
  let ?inner = "\<lambda>y fy. \<lambda>x f. do {
         d \<leftarrow> rd data (y * w * 4 + x * 4 + chanOff);
         c \<leftarrow> rd cosX (cxBase + x);
         Some (f + d * c * fy) }"
  have row: "\<exists>f'. forUpto w (?inner y (cosY ! (cyBase + y))) f = Some f' \<and> P (Suc y * w) f'"
    if y: "y < h" and inv: "P (y * w) f" for y f
  proof -
    have "\<exists>f'. forUpto w (?inner y (cosY ! (cyBase + y))) f = Some f' \<and> P (y * w + w) f'"
    proof (rule forUpto_inv [where P = "\<lambda>x f. P (y * w + x) f"])
      show "P (y * w + 0) f" using inv by simp
    next
      fix x f
      assume x: "x < w" and q: "P (y * w + x) f"
      have k: "y * w + x < w * h"
        using cell_less [OF y x] by (simp add: mult.commute)
      have ix: "y * w * 4 + x * 4 + chanOff = (y * w + x) * 4 + chanOff"
        by (simp add: algebra_simps)
      have i1: "y * w * 4 + x * 4 + chanOff < length data"
        unfolding ix len using idx4 [OF k c] .
      have i2: "cxBase + x < length cosX" using x lx by simp
      define dv where "dv = data ! (y * w * 4 + x * 4 + chanOff)"
      define t where "t = dv * cosX ! (cxBase + x) * cosY ! (cyBase + y)"
      have run: "?inner y (cosY ! (cyBase + y)) x f = Some (f + t)"
        using i1 i2 by (simp add: rd_Some t_def dv_def)
      have dv: "dv = data ! ((y * w + x) * 4 + chanOff)"
        unfolding dv_def by (simp only: ix)
      have b: "\<bar>t\<bar> \<le> 1" if Bd
      proof -
        have "\<forall>k < w * h. \<bar>data ! (k * 4 + chanOff)\<bar> \<le> 1"
          using that by (simp add: Bd_def chanBounded_def)
        then have "\<bar>dv\<bar> \<le> 1" unfolding dv using k by blast
        moreover have "\<bar>cosX ! (cxBase + x)\<bar> \<le> 1" "\<bar>cosY ! (cyBase + y)\<bar> \<le> 1"
          using that x y by (simp_all add: Bd_def tblBounded_def)
        ultimately show ?thesis unfolding t_def by (rule term_bound)
      qed
      have n: "0 \<le> t" if Nn
      proof -
        have "\<forall>k < w * h. 0 \<le> data ! (k * 4 + chanOff)"
          using that by (simp add: Nn_def chanNonneg_def)
        then have "0 \<le> dv" unfolding dv using k by blast
        moreover have "0 \<le> cosX ! (cxBase + x)" "0 \<le> cosY ! (cyBase + y)"
          using that x y by (simp_all add: Nn_def tblNonneg_def)
        ultimately show ?thesis unfolding t_def by simp
      qed
      have "P (y * w + Suc x) (f + t)"
        unfolding P_def using q b n by (auto simp: P_def)
      with run show "\<exists>s'. ?inner y (cosY ! (cyBase + y)) x f = Some s' \<and> P (y * w + Suc x) s'"
        by blast
    qed
    then show ?thesis by (simp add: add.commute)
  qed
  let ?outer = "\<lambda>y f. do {
       fy \<leftarrow> rd cosY (cyBase + y);
       let rowOff = y * w * 4;
       forUpto w (\<lambda>x f. do {
         d \<leftarrow> rd data (rowOff + x * 4 + chanOff);
         c \<leftarrow> rd cosX (cxBase + x);
         Some (f + d * c * fy) }) f }"
  have "\<exists>f. forUpto h ?outer 0 = Some f \<and> P (h * w) f"
  proof (rule forUpto_inv [where P = "\<lambda>y f. P (y * w) f"])
    show "P (0 * w) 0" by (simp add: P_def)
  next
    fix y f
    assume y: "y < h" and inv: "P (y * w) f"
    have "cyBase + y < length cosY" using y ly by simp
    then have "?outer y f = forUpto w (?inner y (cosY ! (cyBase + y))) f"
      by (simp add: rd_Some Let_def)
    with row [OF y inv] show "\<exists>s'. ?outer y f = Some s' \<and> P (Suc y * w) s'"
      by simp
  qed
  then show ?thesis
    unfolding dctSum_def P_def Bd_def Nn_def by (simp add: mult.commute)
qed


lemma div_bound:
  fixes f :: real
  assumes "\<bar>f\<bar> \<le> real n" "0 < n"
  shows "\<bar>f / real n\<bar> \<le> 1"
  using assms by (simp add: field_simps)

lemma tbl_prefix:
  assumes "\<forall>j < n * w. P (tbl ! j)" "c < n"
  shows "\<forall>x < w. P (tbl ! (c * w + x))"
  using assms cell_less by blast

lemma dctLoop_total:
  assumes len: "length data = w * h * 4" and c: "chanOff < 4"
    and lcx: "nx * w \<le> length cosX" and lcy: "ny * h \<le> length cosY"
    and pos: "0 < w" "0 < h" and ld: "length dst = nx * ny - 1"
  shows "\<exists>dc acMax dst'. dctLoop data chanOff 4 w h nx ny cosX cosY dst
                            = Some (dc, acMax, nx * ny - 1, dst')
     \<and> length dst' = length dst \<and> 0 \<le> acMax
     \<and> (chanBounded data (w * h) chanOff \<and> tblBounded cosX 0 (nx * w) \<and> tblBounded cosY 0 (ny * h)
          \<longrightarrow> acMax \<le> 1 \<and> \<bar>dc\<bar> \<le> 1)
     \<and> (chanNonneg data (w * h) chanOff \<and> tblNonneg cosX 0 w \<and> tblNonneg cosY 0 h
          \<longrightarrow> 0 \<le> dc)"
proof -
  define Bd where "Bd \<longleftrightarrow> chanBounded data (w * h) chanOff \<and> tblBounded cosX 0 (nx * w)
                          \<and> tblBounded cosY 0 (ny * h)"
  define Nn where "Nn \<longleftrightarrow> chanNonneg data (w * h) chanOff \<and> tblNonneg cosX 0 w
                          \<and> tblNonneg cosY 0 h"
  define I where "I = (\<lambda>(t :: nat) (st :: real \<times> real \<times> nat \<times> real list).
     case st of (dc, acMax, idx, d) \<Rightarrow>
       idx = t - 1 \<and> length d = length dst \<and> 0 \<le> acMax
       \<and> (Bd \<longrightarrow> acMax \<le> 1 \<and> \<bar>dc\<bar> \<le> 1) \<and> (Nn \<longrightarrow> 0 \<le> dc))"
  let ?cell = "\<lambda>cy. \<lambda>cx (dc, acMax, idx, dst). do {
          let cxBase = cx * w;
          f \<leftarrow> dctSum data chanOff 4 w h cosX cosY cxBase (cy * h);
          let f = f / real (w * h);
          if cx = 0 \<and> cy = 0 then Some (f, acMax, idx, dst)
          else do {
            dst \<leftarrow> wr dst idx f;
            let af = (if f < 0 then - f else f);
            let acMax = (if af > acMax then af else acMax);
            Some (dc, acMax, idx + 1, dst) } }"
  have wh: "0 < w * h" using pos by simp
  have cell: "\<exists>st'. ?cell cy cx st = Some st' \<and> I (cy * nx + Suc cx) st'"
    if cy: "cy < ny" and cx: "cx < nx" and inv: "I (cy * nx + cx) st" for cy cx st
  proof -
    obtain dc acMax idx d where st: "st = (dc, acMax, idx, d)" by (cases st) auto
    have bx: "cx * w + w \<le> length cosX"
      using cell_less [OF cx, of 0 w] mult_le_mono1 [of "Suc cx" nx w] cx lcx by simp
    have by': "cy * h + h \<le> length cosY"
      using mult_le_mono1 [of "Suc cy" ny h] cy lcy by simp
    from dctSum_total [OF len c bx by'] obtain f where
      f: "dctSum data chanOff 4 w h cosX cosY (cx * w) (cy * h) = Some f"
      and fb: "chanBounded data (w * h) chanOff \<and> tblBounded cosX (cx * w) w
               \<and> tblBounded cosY (cy * h) h \<longrightarrow> \<bar>f\<bar> \<le> real (w * h)"
      and fn: "chanNonneg data (w * h) chanOff \<and> tblNonneg cosX (cx * w) w
               \<and> tblNonneg cosY (cy * h) h \<longrightarrow> 0 \<le> f"
      by blast
    define g where "g = f / real (w * h)"
    have gb: "\<bar>g\<bar> \<le> 1" if Bd
    proof -
      have "tblBounded cosX (cx * w) w"
        using that cx tbl_prefix [of nx w "\<lambda>v. \<bar>v\<bar> \<le> 1" cosX cx]
        by (simp add: Bd_def tblBounded_def)
      moreover have "tblBounded cosY (cy * h) h"
        using that cy tbl_prefix [of ny h "\<lambda>v. \<bar>v\<bar> \<le> 1" cosY cy]
        by (simp add: Bd_def tblBounded_def)
      ultimately have "\<bar>f\<bar> \<le> real (w * h)" using fb that by (simp add: Bd_def)
      then show ?thesis unfolding g_def using wh by (rule div_bound)
    qed
    have inv': "idx = cy * nx + cx - 1" "length d = length dst" "0 \<le> acMax"
      "Bd \<longrightarrow> acMax \<le> 1 \<and> \<bar>dc\<bar> \<le> 1" "Nn \<longrightarrow> 0 \<le> dc"
      using inv by (simp_all add: I_def st)
    show ?thesis
    proof (cases "cx = 0 \<and> cy = 0")
      case True
      have g0: "0 \<le> g" if Nn
        using fn that True wh by (simp add: Nn_def g_def)
      have "I (cy * nx + Suc cx) (g, acMax, idx, d)"
        using inv' gb g0 True by (simp add: I_def)
      then show ?thesis
        using True f by (simp add: st g_def Let_def)
    next
      case False
      then have t1: "1 \<le> cy * nx + cx" using cx by (cases cy) auto
      have "cy * nx + cx < ny * nx" using cell_less [OF cy cx] .
      then have ilt: "idx < length d"
        using inv'(1,2) t1 ld by (simp add: mult.commute)
      define am where "am = (if (if g < 0 then - g else g) > acMax
                             then (if g < 0 then - g else g) else acMax)"
      have am: "0 \<le> am" "Bd \<longrightarrow> am \<le> 1"
        using inv'(3,4) gb by (auto simp: am_def)
      have "I (cy * nx + Suc cx) (dc, am, idx + 1, d[idx := g])"
        using inv' am t1 by (simp add: I_def)
      moreover have "?cell cy cx st = Some (dc, am, idx + 1, d[idx := g])"
        using False f ilt by (simp add: st g_def am_def Let_def wr_Some)
      ultimately show ?thesis by blast
    qed
  qed
  have rowl: "\<exists>st'. forUpto nx (?cell cy) st = Some st' \<and> I (Suc cy * nx) st'"
    if cy: "cy < ny" and inv: "I (cy * nx) st" for cy st
  proof -
    have "\<exists>st'. forUpto nx (?cell cy) st = Some st' \<and> I (cy * nx + nx) st'"
    proof (rule forUpto_inv [where P = "\<lambda>cx st. I (cy * nx + cx) st"])
      show "I (cy * nx + 0) st" using inv by simp
    next
      fix cx st
      assume "cx < nx" "I (cy * nx + cx) st"
      with cy show "\<exists>s'. ?cell cy cx st = Some s' \<and> I (cy * nx + Suc cx) s'"
        by (rule cell)
    qed
    then show ?thesis by (simp add: add.commute)
  qed
  have "\<exists>st'. forUpto ny (\<lambda>cy st. forUpto nx (?cell cy) st) (0, 0, 0, dst) = Some st'
          \<and> I (ny * nx) st'"
  proof (rule forUpto_inv [where P = "\<lambda>cy st. I (cy * nx) st"])
    show "I (0 * nx) (0, 0, 0, dst)" by (simp add: I_def)
  next
    fix cy st
    assume "cy < ny" "I (cy * nx) st"
    then show "\<exists>s'. forUpto nx (?cell cy) st = Some s' \<and> I (Suc cy * nx) s'"
      by (rule rowl)
  qed
  then obtain st' where run: "forUpto ny (\<lambda>cy st. forUpto nx (?cell cy) st) (0, 0, 0, dst) = Some st'"
    and fin: "I (ny * nx) st'" by blast
  obtain dc acMax idx d where st': "st' = (dc, acMax, idx, d)" by (cases st') auto
  have "dctLoop data chanOff 4 w h nx ny cosX cosY dst = Some (dc, acMax, idx, d)"
    using run by (simp add: dctLoop_def Let_def st')
  then show ?thesis
    using fin by (simp add: I_def st' Bd_def Nn_def mult.commute)
qed


text \<open>The loops of \<^verbatim>\<open>encodeChan\<close> never read \<open>dst\<close>: two runs that differ only in the
  initial contents of \<open>dst\<close> agree on \<open>dc\<close>, \<open>acMax\<close>, \<open>idx\<close> and on \<open>dst[:idx]\<close>.\<close>

lemma take_Suc_update:
  "i < length xs \<Longrightarrow> length xs = length ys \<Longrightarrow> take i xs = take i ys \<Longrightarrow>
   take (Suc i) (xs[i := v]) = take (Suc i) (ys[i := v])"
  by (simp add: take_Suc_conv_app_nth)

lemma dctLoop_rel:
  assumes "length dst = length dst'"
  shows "rel_option sameUpto (dctLoop data chanOff stride w h nx ny cosX cosY dst)
                             (dctLoop data chanOff stride w h nx ny cosX cosY dst')"
proof -
  let ?cell = "\<lambda>cy. \<lambda>cx (dc, acMax, idx, dst). do {
          let cxBase = cx * w;
          f \<leftarrow> dctSum data chanOff stride w h cosX cosY cxBase (cy * h);
          let f = f / real (w * h);
          if cx = 0 \<and> cy = 0 then Some (f, acMax, idx, dst)
          else do {
            dst \<leftarrow> wr dst idx f;
            let af = (if f < 0 then - f else f);
            let acMax = (if af > acMax then af else acMax);
            Some (dc, acMax, idx + 1, dst) } }"
  have cell: "rel_option sameUpto (?cell cy cx s) (?cell cy cx t)" if "sameUpto s t" for cy cx s t
  proof -
    obtain dc am idx d where s: "s = (dc, am, idx, d)" by (cases s) auto
    obtain dc' am' idx' d' where t: "t = (dc', am', idx', d')" by (cases t) auto
    have r: "dc = dc'" "am = am'" "idx = idx'" "length d = length d'" "take idx d = take idx d'"
      using that by (auto simp: sameUpto_def s t)
    show ?thesis
    proof (cases "dctSum data chanOff stride w h cosX cosY (cx * w) (cy * h)")
      case None
      then show ?thesis by (simp add: s t)
    next
      case (Some f)
      show ?thesis
      proof (cases "idx < length d")
        case True
        then show ?thesis
          using Some r take_Suc_update [OF True r(4) r(5)]
          by (simp add: s t Let_def wr_def sameUpto_def)
      next
        case False
        then show ?thesis
          using Some r by (simp add: s t Let_def wr_def sameUpto_def)
      qed
    qed
  qed
  have row: "rel_option sameUpto (forUpto nx (?cell cy) s) (forUpto nx (?cell cy) t)"
    if "sameUpto s t" for cy s t
    using that cell by (rule forUpto_rel)
  have "rel_option sameUpto
          (forUpto ny (\<lambda>cy st. forUpto nx (?cell cy) st) (0, 0, 0, dst))
          (forUpto ny (\<lambda>cy st. forUpto nx (?cell cy) st) (0, 0, 0, dst'))"
  proof (rule forUpto_rel)
    show "sameUpto (0, 0, 0, dst) (0, 0, 0, dst')"
      using assms by (simp add: sameUpto_def)
  next
    fix cy s t
    assume "sameUpto s t"
    then show "rel_option sameUpto (forUpto nx (?cell cy) s) (forUpto nx (?cell cy) t)"
      by (rule row)
  qed
  then show ?thesis
    by (simp add: dctLoop_def Let_def)
qed

lemma dctLoop_dst_indep:
  assumes len: "length data = w * h * 4" and c: "chanOff < 4"
    and lcx: "nx * w \<le> length cosX" and lcy: "ny * h \<le> length cosY"
    and pos: "0 < w" "0 < h" and ld: "length dst = nx * ny - 1" "length dst' = nx * ny - 1"
  shows "dctLoop data chanOff 4 w h nx ny cosX cosY dst
         = dctLoop data chanOff 4 w h nx ny cosX cosY dst'"
proof -
  from dctLoop_total [OF len c lcx lcy pos ld(1)] obtain dc am d where
    a: "dctLoop data chanOff 4 w h nx ny cosX cosY dst = Some (dc, am, nx * ny - 1, d)"
    and la: "length d = length dst" by blast
  from dctLoop_total [OF len c lcx lcy pos ld(2)] obtain dc' am' d' where
    b: "dctLoop data chanOff 4 w h nx ny cosX cosY dst' = Some (dc', am', nx * ny - 1, d')"
    and lb: "length d' = length dst'" by blast
  have "length dst = length dst'" using ld by simp
  from dctLoop_rel [OF this, of data chanOff 4 w h nx ny cosX cosY]
  have "sameUpto (dc, am, nx * ny - 1, d) (dc', am', nx * ny - 1, d')"
    by (simp add: a b)
  then have "dc = dc'" "am = am'" "d = d'"
    using la lb ld by (simp_all add: sameUpto_def)
  then show ?thesis by (simp add: a b)
qed

lemma scale_total:
  fixes dst :: "real list"
  assumes "n \<le> length dst"
  shows "\<exists>d. forUpto n (\<lambda>i dst. do { v \<leftarrow> rd dst i; wr dst i (v * sc) }) dst = Some d
           \<and> length d = length dst"
proof (rule forUpto_inv [where P = "\<lambda>_ d. length d = length dst"])
  show "length dst = length dst" by simp
next
  fix i and s :: "real list"
  assume "i < n" "length s = length dst"
  then have "i < length s" using assms by simp
  then show "\<exists>s'. do { v \<leftarrow> rd s i; wr s i (v * sc) } = Some s' \<and> length s' = length dst"
    using \<open>length s = length dst\<close> by (simp add: rd_Some wr_Some)
qed

lemma encodeChan_total:
  assumes len: "length data = w * h * 4" and c: "chanOff < 4"
    and lcx: "nx * w \<le> length cosX" and lcy: "ny * h \<le> length cosY"
    and pos: "0 < w" "0 < h" and ld: "length dst = nx * ny - 1"
  shows "\<exists>acMax dc dst'. encodeChan data chanOff 4 w h nx ny cosX cosY dst = Some (acMax, dc, dst')
     \<and> length dst' = length dst \<and> 0 \<le> acMax
     \<and> (chanBounded data (w * h) chanOff \<and> tblBounded cosX 0 (nx * w) \<and> tblBounded cosY 0 (ny * h)
          \<longrightarrow> acMax \<le> 1 \<and> \<bar>dc\<bar> \<le> 1)
     \<and> (chanNonneg data (w * h) chanOff \<and> tblNonneg cosX 0 w \<and> tblNonneg cosY 0 h
          \<longrightarrow> 0 \<le> dc)"
proof -
  from dctLoop_total [OF len c lcx lcy pos ld] obtain dc am d where
    a: "dctLoop data chanOff 4 w h nx ny cosX cosY dst = Some (dc, am, nx * ny - 1, d)"
    and la: "length d = length dst" and am: "0 \<le> am"
    and bd: "chanBounded data (w * h) chanOff \<and> tblBounded cosX 0 (nx * w)
             \<and> tblBounded cosY 0 (ny * h) \<longrightarrow> am \<le> 1 \<and> \<bar>dc\<bar> \<le> 1"
    and nn: "chanNonneg data (w * h) chanOff \<and> tblNonneg cosX 0 w \<and> tblNonneg cosY 0 h
             \<longrightarrow> 0 \<le> dc"
    by blast
  have sl: "slice d 0 (nx * ny - 1) = Some d"
    using la ld by (simp add: slice_def)
  from scale_total [of "length d" d "1 / am"] obtain d' where
    d': "forUpto (length d) (\<lambda>i dst. do { v \<leftarrow> rd dst i; wr dst i (v * (1 / am)) }) d = Some d'"
    and ld': "length d' = length d" by auto
  have "encodeChan data chanOff 4 w h nx ny cosX cosY dst
        = Some (am, dc, if am > 0 then d' else d)"
    using a sl d' by (simp add: encodeChan_def Let_def)
  then show ?thesis
    using la ld' am bd nn by auto
qed

lemma encodeChan_dst_indep:
  assumes len: "length data = w * h * 4" and c: "chanOff < 4"
    and lcx: "nx * w \<le> length cosX" and lcy: "ny * h \<le> length cosY"
    and pos: "0 < w" "0 < h" and ld: "length dst = nx * ny - 1" "length dst' = nx * ny - 1"
  shows "encodeChan data chanOff 4 w h nx ny cosX cosY dst
         = encodeChan data chanOff 4 w h nx ny cosX cosY dst'"
  unfolding encodeChan_def dctLoop_dst_indep [OF assms] ..


lemma imax_nat: "imax a b = max a b" for a b :: nat
  by (simp add: imax_def max_def)

lemma encodeChannels_fresh:
  assumes w: "0 < w" "w \<le> 100" and h: "0 < h" "h \<le> 100" and ok: "workBuf_ok wb"
    and len: "length rgba = w * h * 4" and d: "dimsOK a dims"
  shows "encodeChannels w h a dims rgba wb = encodeFresh w h a dims rgba"
proof -
  obtain lx ly px py ax ay where dims: "dims = (lx, ly, px, py, ax, ay)"
    by (cases dims) auto
  have dd: "1 \<le> lx" "lx \<le> 7" "1 \<le> ly" "ly \<le> 7" "1 \<le> px" "px \<le> 3" "1 \<le> py" "py \<le> 3"
    "ax \<le> 5" "ay \<le> 5" "a \<longrightarrow> lx \<le> 5 \<and> ly \<le> 5"
    using d by (auto simp: dimsOK_def dims split: if_splits)
  let ?maxNx = "if a then imax (imax lx px) ax else imax lx px"
  let ?maxNy = "if a then imax (imax ly py) ay else imax ly py"
  have mx: "?maxNx \<le> 7" "lx \<le> ?maxNx" "px \<le> ?maxNx" "a \<longrightarrow> ax \<le> ?maxNx"
    using dd by (auto simp: imax_nat)
  have my: "?maxNy \<le> 7" "ly \<le> ?maxNy" "py \<le> ?maxNy" "a \<longrightarrow> ay \<le> ?maxNy"
    using dd by (auto simp: imax_nat)
  have "?maxNx * w \<le> 7 * 100" using mx(1) w(2) by (rule mult_le_mono)
  then have sx: "slice (wb_cosX wb) 0 (?maxNx * w) = Some (take (?maxNx * w) (wb_cosX wb))"
    and lsx: "length (take (?maxNx * w) (wb_cosX wb)) = ?maxNx * w"
    using ok by (simp_all add: slice_def workBuf_ok_def)
  have "?maxNy * h \<le> 7 * 100" using my(1) h(2) by (rule mult_le_mono)
  then have sy: "slice (wb_cosY wb) 0 (?maxNy * h) = Some (take (?maxNy * h) (wb_cosY wb))"
    and lsy: "length (take (?maxNy * h) (wb_cosY wb)) = ?maxNy * h"
    using ok by (simp_all add: slice_def workBuf_ok_def)
  let ?cosX = "map (cosEntry w) [0..<?maxNx * w]"
  let ?cosY = "map (cosEntry h) [0..<?maxNy * h]"
  have tx: "cosTable ?maxNx w (take (?maxNx * w) (wb_cosX wb)) = Some ?cosX"
    using lsx by (rule cosTable_fill)
  have ty: "cosTable ?maxNy h (take (?maxNy * h) (wb_cosY wb)) = Some ?cosY"
    using lsy by (rule cosTable_fill)
  have lcx: "nx * w \<le> length ?cosX" if "nx \<le> ?maxNx" for nx
    using that by simp
  have lcy: "ny * h \<le> length ?cosY" if "ny \<le> ?maxNy" for ny
    using that by simp
  let ?lN = "lx * ly - 1"
  let ?pN = "px * py - 1"
  let ?aN = "ax * ay - 1"
  have "lx * ly \<le> 7 * 7" using dd by (intro mult_le_mono) simp_all
  then have nl: "?lN \<le> 48" by simp
  have "px * py \<le> 3 * 3" using dd by (intro mult_le_mono) simp_all
  then have np: "?pN \<le> 8" by simp
  have "ax * ay \<le> 5 * 5" using dd by (intro mult_le_mono) simp_all
  then have na: "?aN \<le> 24" by simp
  have la: "length (wb_ac wb) = 128" using ok by (simp add: workBuf_ok_def)
  let ?sl = "take ?lN (wb_ac wb)"
  let ?sp = "take ?pN (drop ?lN (wb_ac wb))"
  let ?sq = "take ?pN (drop (?lN + ?pN) (wb_ac wb))"
  let ?sa = "take ?aN (drop (?lN + ?pN + ?pN) (wb_ac wb))"
  have s1: "slice (wb_ac wb) 0 ?lN = Some ?sl"
    using nl la by (simp add: slice_def)
  have s2: "slice (wb_ac wb) ?lN (?lN + ?pN) = Some ?sp"
    using nl np la by (simp add: slice_def)
  have s3: "slice (wb_ac wb) (?lN + ?pN) (?lN + ?pN + ?pN) = Some ?sq"
    using nl np la by (simp add: slice_def)
  have s4: "slice (wb_ac wb) (?lN + ?pN + ?pN) (?lN + ?pN + ?pN + ?aN) = Some ?sa"
    using nl np na la by (simp add: slice_def)
  have ls: "length ?sl = ?lN" "length ?sp = ?pN" "length ?sq = ?pN" "length ?sa = ?aN"
    using nl np na la by simp_all
  have e1: "encodeChan rgba 0 4 w h lx ly ?cosX ?cosY ?sl
            = encodeChan rgba 0 4 w h lx ly ?cosX ?cosY (replicate ?lN 0)"
    using len _ lcx [OF mx(2)] lcy [OF my(2)] w(1) h(1) ls(1)
    by (rule encodeChan_dst_indep) simp_all
  have e2: "encodeChan rgba 1 4 w h px py ?cosX ?cosY ?sp
            = encodeChan rgba 1 4 w h px py ?cosX ?cosY (replicate ?pN 0)"
    using len _ lcx [OF mx(3)] lcy [OF my(3)] w(1) h(1) ls(2)
    by (rule encodeChan_dst_indep) simp_all
  have e3: "encodeChan rgba 2 4 w h px py ?cosX ?cosY ?sq
            = encodeChan rgba 2 4 w h px py ?cosX ?cosY (replicate ?pN 0)"
    using len _ lcx [OF mx(3)] lcy [OF my(3)] w(1) h(1) ls(3)
    by (rule encodeChan_dst_indep) simp_all
  have e4: "encodeChan rgba 3 4 w h ax ay ?cosX ?cosY ?sa
            = encodeChan rgba 3 4 w h ax ay ?cosX ?cosY (replicate ?aN 0)" if a
    using len _ lcx [OF mx(4) [rule_format, OF that]] lcy [OF my(4) [rule_format, OF that]]
      w(1) h(1) ls(4)
    by (rule encodeChan_dst_indep) simp_all
  show ?thesis
  proof (cases a)
    case True
    show ?thesis
      using True sx sy tx ty s1 s2 s3 s4 e1 e2 e3 e4 [OF True]
      by (simp add: encodeChannels_def encodeFresh_def dims Let_def)
  next
    case False
    show ?thesis
      using False sx sy tx ty s1 s2 s3 e1 e2 e3
      by (simp add: encodeChannels_def encodeFresh_def dims Let_def)
  qed
qed


lemma basisDim_range:
  assumes "0 < m" "d \<le> m" "1 \<le> limit"
  shows "1 \<le> basisDim limit d m \<and> basisDim limit d m \<le> limit"
proof -
  have "real (limit * d) / real m \<le> real limit"
    using assms by (simp add: divide_le_eq mult_left_mono)
  moreover have "0 \<le> real (limit * d) / real m" by simp
  ultimately have "0 \<le> goRound (real (limit * d) / real m)
                   \<and> goRound (real (limit * d) / real m) \<le> int limit"
    using goRound_range [of 0 "real (limit * d) / real m" "int limit"] by simp
  then show ?thesis
    using assms(3) by (auto simp: basisDim_def roundF_def max1_def)
qed

lemma basisDims_ok:
  assumes "0 < w" "0 < h"
  shows "dimsOK a (basisDims w h a)"
proof -
  have m: "0 < imax w h" "w \<le> imax w h" "h \<le> imax w h"
    using assms by (simp_all add: imax_nat)
  show ?thesis
    using basisDim_range [OF m(1) m(2), of 7] basisDim_range [OF m(1) m(3), of 7]
      basisDim_range [OF m(1) m(2), of 5] basisDim_range [OF m(1) m(3), of 5]
      basisDim_range [OF m(1) m(2), of 3] basisDim_range [OF m(1) m(3), of 3]
    by (simp add: dimsOK_def basisDims_def Let_def)
qed

lemma cosEntry_bounded: "\<bar>cosEntry w j\<bar> \<le> 1"
  by (simp add: cosEntry_def)

lemma cosEntry_first: "j < w \<Longrightarrow> cosEntry w j = 1"
  by (simp add: cosEntry_def)

lemma cosTable_bounded: "n \<le> m \<Longrightarrow> tblBounded (map (cosEntry w) [0..<m]) 0 n"
  by (simp add: tblBounded_def cosEntry_bounded)

lemma cosTable_nonneg: "w \<le> m \<Longrightarrow> tblNonneg (map (cosEntry w) [0..<m]) 0 w"
  by (simp add: tblNonneg_def cosEntry_first)

lemma lpqaRange_chan:
  assumes "lpqaRange n buf"
  shows "chanBounded buf n 0" "chanBounded buf n 1" "chanBounded buf n 2" "chanBounded buf n 3"
    "chanNonneg buf n 0" "chanNonneg buf n 3"
  using assms by (auto simp: lpqaRange_def chanBounded_def chanNonneg_def)

lemma encodeFresh_total:
  assumes w: "0 < w" and h: "0 < h" and len: "length rgba = w * h * 4" and d: "dimsOK a dims"
  shows "\<exists>e. encodeFresh w h a dims rgba = Some e \<and> channelsShape a dims e
            \<and> (lpqaRange (w * h) rgba \<longrightarrow> channelsRange e)"
proof -
  obtain lx ly px py ax ay where dims: "dims = (lx, ly, px, py, ax, ay)"
    by (cases dims) auto
  let ?maxNx = "if a then imax (imax lx px) ax else imax lx px"
  let ?maxNy = "if a then imax (imax ly py) ay else imax ly py"
  have mx: "lx \<le> ?maxNx" "px \<le> ?maxNx" "a \<longrightarrow> ax \<le> ?maxNx"
    by (auto simp: imax_nat)
  have my: "ly \<le> ?maxNy" "py \<le> ?maxNy" "a \<longrightarrow> ay \<le> ?maxNy"
    by (auto simp: imax_nat)
  have one: "1 \<le> ?maxNx" "1 \<le> ?maxNy"
    using d by (auto simp: dimsOK_def dims imax_nat split: if_splits)
  let ?cosX = "map (cosEntry w) [0..<?maxNx * w]"
  let ?cosY = "map (cosEntry h) [0..<?maxNy * h]"
  have lcx: "nx * w \<le> length ?cosX" if "nx \<le> ?maxNx" for nx
    using that by simp
  have lcy: "ny * h \<le> length ?cosY" if "ny \<le> ?maxNy" for ny
    using that by simp
  have bx: "tblBounded ?cosX 0 (nx * w)" if "nx \<le> ?maxNx" for nx
    using that by (intro cosTable_bounded) simp
  have by': "tblBounded ?cosY 0 (ny * h)" if "ny \<le> ?maxNy" for ny
    using that by (intro cosTable_bounded) simp
  have nx0: "tblNonneg ?cosX 0 w"
    using one(1) by (intro cosTable_nonneg) simp
  have ny0: "tblNonneg ?cosY 0 h"
    using one(2) by (intro cosTable_nonneg) simp
  from encodeChan_total [OF len _ lcx [OF mx(1)] lcy [OF my(1)] w h, of 0 "replicate (lx * ly - 1) 0"]
  obtain lS lD lA where
    l: "encodeChan rgba 0 4 w h lx ly ?cosX ?cosY (replicate (lx * ly - 1) 0) = Some (lS, lD, lA)"
    and ll: "length lA = lx * ly - 1" and l0: "0 \<le> lS"
    and lb: "chanBounded rgba (w * h) 0 \<longrightarrow> lS \<le> 1 \<and> \<bar>lD\<bar> \<le> 1"
    and ln: "chanNonneg rgba (w * h) 0 \<longrightarrow> 0 \<le> lD"
    using bx [OF mx(1)] by' [OF my(1)] nx0 ny0 by auto
  from encodeChan_total [OF len _ lcx [OF mx(2)] lcy [OF my(2)] w h, of 1 "replicate (px * py - 1) 0"]
  obtain pS pD pA where
    p: "encodeChan rgba 1 4 w h px py ?cosX ?cosY (replicate (px * py - 1) 0) = Some (pS, pD, pA)"
    and pl: "length pA = px * py - 1" and p0: "0 \<le> pS"
    and pb: "chanBounded rgba (w * h) 1 \<longrightarrow> pS \<le> 1 \<and> \<bar>pD\<bar> \<le> 1"
    using bx [OF mx(2)] by' [OF my(2)] by auto
  from encodeChan_total [OF len _ lcx [OF mx(2)] lcy [OF my(2)] w h, of 2 "replicate (px * py - 1) 0"]
  obtain qS qD qA where
    q: "encodeChan rgba 2 4 w h px py ?cosX ?cosY (replicate (px * py - 1) 0) = Some (qS, qD, qA)"
    and ql: "length qA = px * py - 1" and q0: "0 \<le> qS"
    and qb: "chanBounded rgba (w * h) 2 \<longrightarrow> qS \<le> 1 \<and> \<bar>qD\<bar> \<le> 1"
    using bx [OF mx(2)] by' [OF my(2)] by auto
  show ?thesis
  proof (cases a)
    case True
    from encodeChan_total [OF len _ lcx [OF mx(3) [rule_format, OF True]]
        lcy [OF my(3) [rule_format, OF True]] w h, of 3 "replicate (ax * ay - 1) 0"]
    obtain aS aD aA where
      a: "encodeChan rgba 3 4 w h ax ay ?cosX ?cosY (replicate (ax * ay - 1) 0) = Some (aS, aD, aA)"
      and al: "length aA = ax * ay - 1" and a0: "0 \<le> aS"
      and ab: "chanBounded rgba (w * h) 3 \<longrightarrow> aS \<le> 1 \<and> \<bar>aD\<bar> \<le> 1"
      and an: "chanNonneg rgba (w * h) 3 \<longrightarrow> 0 \<le> aD"
      using bx [OF mx(3) [rule_format, OF True]] by' [OF my(3) [rule_format, OF True]] nx0 ny0
      by auto
    let ?e = "\<lparr>e_hasAlpha = True, e_lx = lx, e_ly = ly, e_px = px, e_py = py,
            e_ax = ax, e_ay = ay, e_lScale = lS, e_lDC = lD, e_pScale = pS,
            e_pDC = pD, e_qScale = qS, e_qDC = qD, e_aScale = aS, e_aDC = aD,
            e_lAC = lA, e_pAC = pA, e_qAC = qA, e_aAC = aA\<rparr>"
    have run: "encodeFresh w h a dims rgba = Some ?e"
      using True l p q a by (simp add: encodeFresh_def dims Let_def)
    have shape: "channelsShape a dims ?e"
      using True ll pl ql al by (simp add: channelsShape_def dims)
    have range: "channelsRange ?e" if "lpqaRange (w * h) rgba"
      using lpqaRange_chan [OF that] l0 lb ln p0 pb q0 qb a0 ab an
      by (simp add: channelsRange_def)
    show ?thesis using run shape range by blast
  next
    case False
    let ?e = "\<lparr>e_hasAlpha = False, e_lx = lx, e_ly = ly, e_px = px, e_py = py,
            e_ax = ax, e_ay = ay, e_lScale = lS, e_lDC = lD, e_pScale = pS,
            e_pDC = pD, e_qScale = qS, e_qDC = qD, e_aScale = 0, e_aDC = 0,
            e_lAC = lA, e_pAC = pA, e_qAC = qA, e_aAC = []\<rparr>"
    have run: "encodeFresh w h a dims rgba = Some ?e"
      using False l p q by (simp add: encodeFresh_def dims Let_def)
    have shape: "channelsShape a dims ?e"
      using False ll pl ql by (simp add: channelsShape_def dims)
    have range: "channelsRange ?e" if "lpqaRange (w * h) rgba"
      using lpqaRange_chan [OF that] l0 lb ln p0 pb q0 qb
      by (simp add: channelsRange_def)
    show ?thesis using run shape range by blast
  qed
qed

section \<open>The proxy builder keeps the length of the proxy\<close>

lemma forUpto_keeps:
  assumes "forUpto n body s = Some s'" "Q s"
    and "\<And>i s s'. i < n \<Longrightarrow> body i s = Some s' \<Longrightarrow> Q s \<Longrightarrow> Q s'"
  shows "Q s'"
  using assms
proof (induction n arbitrary: s')
  case 0
  then show ?case by (simp add: forUpto_0)
next
  case (Suc n)
  from Suc.prems(1) obtain s1 where s1: "forUpto n body s = Some s1" "body n s1 = Some s'"
    by (auto simp: forUpto_Suc split: bind_splits)
  have "Q s1"
  proof (rule Suc.IH [OF s1(1) Suc.prems(2)])
    fix i t t'
    assume "i < n" "body i t = Some t'" "Q t"
    then show "Q t'" using Suc.prems(3) [of i t t'] by simp
  qed
  with Suc.prems(3) [of n s1 s'] s1(2) show ?case by simp
qed

lemma wr_length: "wr xs i v = Some ys \<Longrightarrow> length ys = length xs"
  by (auto simp: wr_def split: if_splits)

lemma store4_length: "store4 rgba di r g b a = Some s' \<Longrightarrow> length s' = length rgba"
  by (auto simp: store4_def dest!: wr_length split: bind_splits)

lemma store3_length: "store3 rgba di r g b = Some s' \<Longrightarrow> length s' = length rgba"
  by (auto simp: store3_def dest!: wr_length split: bind_splits)

lemma loop2_length:
  fixes s :: "real list"
  assumes "forUpto h (\<lambda>y s. forUpto w (body y) s) s = Some s'"
    and "\<And>y x s s'. body y x s = Some s' \<Longrightarrow> length s' = length s"
  shows "length s' = length s"
proof -
  have row: "length t' = length t" if "forUpto w (body y) t = Some t'" for y t t'
    using that
    by (rule forUpto_keeps [where Q = "\<lambda>u. length u = length t"]) (simp_all add: assms(2))
  show ?thesis
    using assms(1)
    by (rule forUpto_keeps [where Q = "\<lambda>u. length u = length s"]) (simp_all add: row)
qed

lemma exNRGBA_length: "exNRGBA src bounds w h s = Some s' \<Longrightarrow> length s' = length s"
  unfolding exNRGBA_def Let_def
  by (erule loop2_length) (auto dest!: store4_length split: bind_splits)

lemma exRGBA_length: "exRGBA src bounds w h s = Some s' \<Longrightarrow> length s' = length s"
  unfolding exRGBA_def Let_def
  by (erule loop2_length)
     (auto dest!: store3_length wr_length split: bind_splits if_splits)

lemma exYCbCr_length: "exYCbCr src bounds w h s = Some s' \<Longrightarrow> length s' = length s"
  unfolding exYCbCr_def Let_def
  by (erule loop2_length) (auto dest!: store4_length split: bind_splits)

lemma exGray_length: "exGray src bounds w h s = Some s' \<Longrightarrow> length s' = length s"
  unfolding exGray_def Let_def
  by (erule loop2_length) (auto dest!: store4_length split: bind_splits)

lemma exGeneric_length: "exGeneric atFn bounds s = Some s' \<Longrightarrow> length s' = length s"
  unfolding exGeneric_def Let_def
  by (erule loop2_length)
     (auto dest!: store3_length wr_length split: bind_splits if_splits prod.splits)

lemma extractPixels_length:
  "extractPixels img bounds w h s = Some s' \<Longrightarrow> length s' = length s"
  by (cases img)
     (auto dest: exNRGBA_length exRGBA_length exYCbCr_length exGray_length exGeneric_length)

lemma dsNRGBA_length: "dsNRGBA src bounds sw sh w h s = Some s' \<Longrightarrow> length s' = length s"
  unfolding dsNRGBA_def Let_def case_prod_beta
  by (erule loop2_length) (auto dest!: store4_length split: bind_splits)

lemma dsRGBA_length: "dsRGBA src bounds sw sh w h s = Some s' \<Longrightarrow> length s' = length s"
  unfolding dsRGBA_def Let_def case_prod_beta
  by (erule loop2_length)
     (auto dest!: store3_length wr_length split: bind_splits if_splits)

lemma dsYPlane_length: "dsYPlane src bounds sw sh w h s = Some s' \<Longrightarrow> length s' = length s"
  unfolding dsYPlane_def Let_def case_prod_beta
  by (erule loop2_length) (auto dest!: wr_length split: bind_splits)

lemma dsChroma_length: "dsChroma src cx cy cw ch w h s = Some s' \<Longrightarrow> length s' = length s"
  unfolding dsChroma_def Let_def case_prod_beta
  by (erule loop2_length) (auto dest!: store4_length split: bind_splits)

lemma dsYCbCrAny_length: "dsYCbCrAny src bounds sw sh w h s = Some s' \<Longrightarrow> length s' = length s"
  unfolding dsYCbCrAny_def Let_def case_prod_beta
  by (erule loop2_length) (auto dest!: store4_length split: bind_splits)

lemma dsYCbCr_length: "dsYCbCr src bounds sw sh w h s = Some s' \<Longrightarrow> length s' = length s"
  by (auto simp: dsYCbCr_def dsYCbCr420_def dsYCbCr422_def Let_def
        dest!: dsYPlane_length dsChroma_length dsYCbCrAny_length
        split: subsample.splits bind_splits)

lemma dsGray_length: "dsGray src bounds sw sh w h s = Some s' \<Longrightarrow> length s' = length s"
  unfolding dsGray_def Let_def case_prod_beta
  by (erule loop2_length) (auto dest!: store4_length split: bind_splits)

lemma dsGeneric_length: "dsGeneric atFn bounds sw sh w h s = Some s' \<Longrightarrow> length s' = length s"
  unfolding dsGeneric_def Let_def case_prod_beta
  by (erule loop2_length) (auto dest!: store4_length)

lemma areaDownscale_length:
  "areaDownscale img bounds sw sh w h s = Some s' \<Longrightarrow> length s' = length s"
  by (cases img)
     (auto dest: dsNRGBA_length dsRGBA_length dsYCbCr_length dsGray_length dsGeneric_length)

lemma zeroF32_eq: "zeroF32 s = Some (replicate (length s) 0)"
proof -
  have "\<exists>t. forUpto (length s) (\<lambda>i s. wr s i 0) s = Some t
          \<and> (length t = length s \<and> (\<forall>j < length s. t ! j = 0))"
  proof (rule forUpto_inv [where P = "\<lambda>i t. length t = length s \<and> (\<forall>j < i. t ! j = 0)"])
    show "length s = length s \<and> (\<forall>j < 0. s ! j = 0)" by simp
  next
    fix i and t :: "real list"
    assume "i < length s" "length t = length s \<and> (\<forall>j < i. t ! j = 0)"
    then show "\<exists>s'. wr t i 0 = Some s' \<and> length s' = length s \<and> (\<forall>j < Suc i. s' ! j = 0)"
      by (auto simp: wr_def nth_list_update less_Suc_eq)
  qed
  then obtain t where t: "zeroF32 s = Some t" "length t = length s" "\<forall>j < length s. t ! j = 0"
    by (auto simp: zeroF32_def)
  have "t = replicate (length s) 0"
    using t(2,3) by (intro nth_equalityI) simp_all
  with t(1) show ?thesis by simp
qed

section \<open>\<^verbatim>\<open>assembleHash\<close> on fresh tables\<close>

lemma goInt_le: "0 \<le> x \<Longrightarrow> goInt x \<le> x"
proof -
  assume "0 \<le> x"
  then have "(x + 2 ^ 63) mod 2 ^ 64 \<le> x + 2 ^ 63"
    by (intro zmod_le_nonneg_dividend) simp
  then show ?thesis by (simp add: goInt_def)
qed

lemma goQuot_le_100:
  assumes "a \<le> 100 * b" "0 < b"
  shows "goQuot a b \<le> 100"
proof (cases "a < 0")
  case True
  have "0 \<le> \<bar>a\<bar> div \<bar>b\<bar>" using assms(2) by (simp add: pos_imp_zdiv_nonneg_iff)
  then show ?thesis using True assms(2) by (simp add: goQuot_def)
next
  case False
  then have "a div b \<le> (100 * b) div b" using assms by (intro zdiv_mono1) simp_all
  then show ?thesis using False assms(2) by (simp add: goQuot_def)
qed

lemma thumbDims_range:
  assumes "0 < srcW" "0 < srcH"
  shows "1 \<le> fst (thumbDims srcW srcH) \<and> fst (thumbDims srcW srcH) \<le> 100
       \<and> 1 \<le> snd (thumbDims srcW srcH) \<and> snd (thumbDims srcW srcH) \<le> 100"
proof -
  have a: "goQuot (goInt (srcH * 100)) srcW \<le> 100" if "srcH \<le> srcW"
  proof -
    have "goInt (srcH * 100) \<le> srcH * 100" using assms by (intro goInt_le) simp
    also have "\<dots> \<le> 100 * srcW" using that by simp
    finally show ?thesis using assms(1) by (rule goQuot_le_100)
  qed
  have b: "goQuot (goInt (srcW * 100)) srcH \<le> 100" if "srcW \<le> srcH"
  proof -
    have "goInt (srcW * 100) \<le> srcW * 100" using assms by (intro goInt_le) simp
    also have "\<dots> \<le> 100 * srcH" using that by simp
    finally show ?thesis using assms(2) by (rule goQuot_le_100)
  qed
  show ?thesis
    using assms a b by (auto simp: thumbDims_def maxThumbDim_def max1_def)
qed

lemma transform_fresh:
  assumes w: "0 < w" "w \<le> 100" and h: "0 < h" "h \<le> 100" and ok: "workBuf_ok wb"
  shows "transform w h wb = transformFresh w h (take (w * h * 4) (wb_rgba wb))"
proof -
  let ?rgba = "take (w * h * 4) (wb_rgba wb)"
  have "w * h \<le> 100 * 100" using w(2) h(2) by (rule mult_le_mono)
  then have n: "w * h * 4 \<le> length (wb_rgba wb)"
    using ok by (simp add: workBuf_ok_def mult.commute)
  then have sl: "slice (wb_rgba wb) 0 (w * h * 4) = Some ?rgba"
    by (simp add: slice_def)
  have len: "length ?rgba = w * h * 4" using n by simp
  obtain avgA where avg: "avgAlpha (w * h) ?rgba = Some avgA"
    using avgAlpha_total [OF len] by blast
  obtain lpqa where lp: "toLPQA (w * h) ?rgba = Some lpqa" and ll: "length lpqa = w * h * 4"
    using toLPQA_total [OF len] by blast
  have "encodeChannels w h (avgA < 1) (basisDims w h (avgA < 1)) lpqa wb
        = encodeFresh w h (avgA < 1) (basisDims w h (avgA < 1)) lpqa"
    using w h ok ll basisDims_ok [OF w(1) h(1)] by (rule encodeChannels_fresh)
  then show ?thesis
    by (simp add: transform_def transformFresh_def sl avg lp Let_def)
qed

lemma transformFresh_total:
  assumes w: "0 < w" and h: "0 < h" and len: "length rgba = w * h * 4"
  shows "\<exists>e avgA. avgAlpha (w * h) rgba = Some avgA \<and> transformFresh w h rgba = Some e
            \<and> channelsShape (avgA < 1) (basisDims w h (avgA < 1)) e
            \<and> (proxy01 (w * h) rgba \<longrightarrow> channelsRange e)"
proof -
  obtain avgA where avg: "avgAlpha (w * h) rgba = Some avgA"
    using avgAlpha_total [OF len] by blast
  obtain lpqa where lp: "toLPQA (w * h) rgba = Some lpqa" and ll: "length lpqa = w * h * 4"
    and lr: "proxy01 (w * h) rgba \<longrightarrow> lpqaRange (w * h) lpqa"
    using toLPQA_total [OF len] by blast
  from encodeFresh_total [OF w h ll basisDims_ok [OF w h], of "avgA < 1"]
  obtain e where "encodeFresh w h (avgA < 1) (basisDims w h (avgA < 1)) lpqa = Some e"
    "channelsShape (avgA < 1) (basisDims w h (avgA < 1)) e"
    "lpqaRange (w * h) lpqa \<longrightarrow> channelsRange e"
    by blast
  then show ?thesis
    using avg lp lr by (auto simp: transformFresh_def)
qed

section \<open>The bit packer\<close>

lemma fold_bind_None: "fold (\<lambda>c r. Option.bind r (f c)) cs None = None"
  by (induction cs) simp_all

lemma packAC_Cons:
  "packAC acOff (c # cs) (hash, nib) =
     Option.bind (if nib mod 2 = 0 then wr hash (acOff + nib div 2) (acNibble c)
                  else Option.bind (rd hash (acOff + nib div 2))
                         (\<lambda>old. wr hash (acOff + nib div 2) (old OR push_bit 4 (acNibble c))))
       (\<lambda>hash'. packAC acOff cs (hash', nib + 1))"
  by (cases "nib mod 2 = 0") (auto simp: packAC_def Let_def fold_bind_None split: bind_splits)

lemma packAC_Nil: "packAC acOff [] st = Some st"
  by (simp add: packAC_def)

lemma packAC_total:
  assumes "acOff + (nib + length ac + 1) div 2 \<le> length hash"
  shows "\<exists>hash'. packAC acOff ac (hash, nib) = Some (hash', nib + length ac)
           \<and> length hash' = length hash \<and> take acOff hash' = take acOff hash"
  using assms
proof (induction ac arbitrary: hash nib)
  case Nil
  then show ?case by (simp add: packAC_Nil)
next
  case (Cons c cs)
  let ?pos = "acOff + nib div 2"
  have pos: "?pos < length hash" using Cons.prems by simp linarith?
  define h1 where "h1 = (if nib mod 2 = 0 then hash[?pos := acNibble c]
                         else hash[?pos := hash ! ?pos OR push_bit 4 (acNibble c)])"
  have l1: "length h1 = length hash" by (simp add: h1_def)
  have t1: "take acOff h1 = take acOff hash" by (simp add: h1_def)
  have step: "packAC acOff (c # cs) (hash, nib) = packAC acOff cs (h1, nib + 1)"
    using pos by (simp add: packAC_Cons rd_Some wr_Some h1_def)
  have "acOff + (nib + 1 + length cs + 1) div 2 \<le> length h1"
    using Cons.prems l1 by simp
  from Cons.IH [OF this] obtain h' where
    "packAC acOff cs (h1, nib + 1) = Some (h', nib + 1 + length cs)"
    "length h' = length h1" "take acOff h' = take acOff h1"
    by blast
  then show ?case using step l1 t1 by simp
qed


lemma take6_stores:
  fixes b0 :: byte
  assumes "6 \<le> L"
  shows "take 6 ((replicate L 0)[0 := b0, 1 := b1, 2 := b2, 3 := b3, 4 := b4, 5 := b5])
         = [b0, b1, b2, b3, b4, b5]"
proof -
  obtain k where L: "L = 6 + k" using assms by (metis le_Suc_ex)
  have r: "replicate L (0 :: byte) = [0, 0, 0, 0, 0, 0] @ replicate k 0"
    unfolding L replicate_add by (simp add: numeral_eq_Suc)
  show ?thesis
    unfolding r by (simp add: numeral_eq_Suc)
qed

lemma take8_stores:
  fixes hash :: "byte list"
  assumes "8 \<le> length hash"
  shows "take 8 (hash[6 := b6, 7 := b7]) = take 6 hash @ [b6, b7]"
  using assms by (simp add: numeral_eq_Suc take_Suc_conv_app_nth)

lemma packHash_total:
  assumes sh: "channelsShape a dims e"
  shows "\<exists>hash. packHash w h e = Some hash \<and> length hash = hashLen a dims
           \<and> take (if a then 8 else 6) hash = headerBytes w h e"
proof -
  obtain lx ly px py ax ay where dims: "dims = (lx, ly, px, py, ax, ay)"
    by (cases dims) auto
  have e: "e_hasAlpha e = a" "e_lx e = lx" "e_ly e = ly" "e_px e = px" "e_py e = py"
    "e_ax e = ax" "e_ay e = ay"
    "length (e_lAC e) = lx * ly - 1" "length (e_pAC e) = px * py - 1"
    "length (e_qAC e) = px * py - 1" "length (e_aAC e) = (if a then ax * ay - 1 else 0)"
    using sh by (simp_all add: channelsShape_def dims)
  let ?lN = "lx * ly - 1"
  let ?pN = "px * py - 1"
  let ?aN = "if a then ax * ay - 1 else 0"
  let ?off = "if a then 8 else 6 :: nat"
  define L where "L = ?off + (?lN + ?pN + ?pN + ?aN + 1) div 2"
  have LL: "hashLen a dims = L"
    by (simp add: hashLen_def totalAC_def dims L_def)
  have L6: "6 \<le> L" and L8: "a \<longrightarrow> 8 \<le> L" by (simp_all add: L_def)
  let ?H = "encHeader w h e"
  let ?H2 = "encHeader2 e"
  let ?A = "encAlphaHdr e"
  define h6 :: "byte list" where "h6 = (replicate L 0)[0 := ucast ?H, 1 := ucast (drop_bit 8 ?H),
      2 := ucast (drop_bit 16 ?H), 3 := ucast (drop_bit 24 ?H), 4 := ucast ?H2,
      5 := ucast (drop_bit 8 ?H2)]"
  have l6: "length h6 = L" by (simp add: h6_def)
  have t6: "take 6 h6 = [ucast ?H, ucast (drop_bit 8 ?H), ucast (drop_bit 16 ?H),
                          ucast (drop_bit 24 ?H), ucast ?H2, ucast (drop_bit 8 ?H2)]"
    unfolding h6_def using L6 by (rule take6_stores)
  define h8 where "h8 = (if a then h6[6 := ucast ?A, 7 := ucast (drop_bit 8 ?A)] else h6)"
  have l8: "length h8 = L" by (simp add: h8_def l6)
  have t8: "take ?off h8 = headerBytes w h e"
    using L8 l6 t6 take8_stores [of h6 "ucast ?A" "ucast (drop_bit 8 ?A)"]
    by (simp add: h8_def headerBytes_def e)
  have "?off + (0 + length (e_lAC e) + 1) div 2 \<le> length h8"
    unfolding l8 L_def e by simp
  from packAC_total [OF this] obtain h1 where
    p1: "packAC ?off (e_lAC e) (h8, 0) = Some (h1, ?lN)" and l1: "length h1 = L"
    and t1: "take ?off h1 = take ?off h8"
    using l8 e by auto
  have "?off + (?lN + length (e_pAC e) + 1) div 2 \<le> length h1"
    unfolding l1 L_def e by simp
  from packAC_total [OF this] obtain h2 where
    p2: "packAC ?off (e_pAC e) (h1, ?lN) = Some (h2, ?lN + ?pN)" and l2: "length h2 = L"
    and t2: "take ?off h2 = take ?off h1"
    using l1 e by auto
  have "?off + (?lN + ?pN + length (e_qAC e) + 1) div 2 \<le> length h2"
    unfolding l2 L_def e by simp
  from packAC_total [OF this] obtain h3 where
    p3: "packAC ?off (e_qAC e) (h2, ?lN + ?pN) = Some (h3, ?lN + ?pN + ?pN)"
    and l3: "length h3 = L" and t3: "take ?off h3 = take ?off h2"
    using l2 e by auto
  have "?off + (?lN + ?pN + ?pN + length (e_aAC e) + 1) div 2 \<le> length h3"
    unfolding l3 L_def e by simp
  from packAC_total [OF this] obtain h4 where
    p4: "packAC ?off (e_aAC e) (h3, ?lN + ?pN + ?pN) = Some (h4, ?lN + ?pN + ?pN + ?aN)"
    and l4: "length h4 = L" and t4: "take ?off h4 = take ?off h3"
    using l3 e by auto
  define hf where "hf = (if a then h4 else h3)"
  have run: "packHash w h e = Some hf"
    unfolding packHash_def Let_def e L_def [symmetric]
    using L6 L8 p1 p2 p3 p4
    by (cases a) (simp_all add: wr_def hf_def h8_def h6_def)
  have "length hf = L" "take ?off hf = headerBytes w h e"
    using l3 l4 t1 t2 t3 t4 t8 by (auto simp: hf_def)
  with run LL show ?thesis by auto
qed

section \<open>Determinism\<close>

lemma Encode_fresh:
  assumes ok: "workBuf_ok wb"
  shows "Encode img wb = EncodeFresh img"
proof (cases "maxX (Bounds img) - minX (Bounds img) \<le> 0 \<or> maxY (Bounds img) - minY (Bounds img) \<le> 0")
  case True
  then show ?thesis by (auto simp: Encode_def EncodeFresh_def Let_def)
next
  case False
  define srcW where "srcW = maxX (Bounds img) - minX (Bounds img)"
  define srcH where "srcH = maxY (Bounds img) - minY (Bounds img)"
  have pos: "0 < srcW" "0 < srcH" using False by (simp_all add: srcW_def srcH_def)
  obtain dstW dstH where td: "thumbDims srcW srcH = (dstW, dstH)" by (cases "thumbDims srcW srcH")
  have r: "1 \<le> dstW" "dstW \<le> 100" "1 \<le> dstH" "dstH \<le> 100"
    using thumbDims_range [OF pos] by (simp_all add: td)
  define w where "w = nat dstW"
  define h where "h = nat dstH"
  have wh: "0 < w" "w \<le> 100" "0 < h" "h \<le> 100" using r by (simp_all add: w_def h_def)
  have n: "nat (dstW * dstH * 4) = w * h * 4" "0 \<le> dstW * dstH * 4"
    using r by (simp_all add: w_def h_def nat_mult_distrib)
  have n2: "0 \<le> dstW * dstH" using r by simp
  have "w * h \<le> 100 * 100" using wh(2,4) by (rule mult_le_mono)
  then have le: "w * h * 4 \<le> length (wb_rgba wb)"
    using ok by (simp add: workBuf_ok_def mult.commute)
  have sl: "slice (wb_rgba wb) 0 (w * h * 4) = Some (take (w * h * 4) (wb_rgba wb))"
    using le by (simp add: slice_def)
  have z: "zeroF32 (take (w * h * 4) (wb_rgba wb)) = Some (replicate (w * h * 4) 0)"
    using le by (simp add: zeroF32_eq)
  define build where "build = (\<lambda>s. if srcW \<le> dstW \<and> srcH \<le> dstH
                 then extractPixels img (Bounds img) w h s
                 else areaDownscale img (Bounds img) (nat srcW) (nat srcH) w h s)"
  have asm: "assembleHash w h (wb\<lparr>wb_rgba := s @ drop (w * h * 4) (wb_rgba wb)\<rparr>)
             = Option.bind (transformFresh w h s) (packHash w h)"
    if "build (replicate (w * h * 4) 0) = Some s" for s
  proof -
    have ls: "length s = w * h * 4"
      using that extractPixels_length [of img "Bounds img" w h "replicate (w * h * 4) 0" s]
        areaDownscale_length [of img "Bounds img" "nat srcW" "nat srcH" w h
          "replicate (w * h * 4) 0" s]
      by (auto simp: build_def split: if_splits)
    let ?wb = "wb\<lparr>wb_rgba := s @ drop (w * h * 4) (wb_rgba wb)\<rparr>"
    have "workBuf_ok ?wb" using ok le ls by (simp add: workBuf_ok_def)
    from transform_fresh [OF wh this] ls
    have "transform w h ?wb = transformFresh w h s" by simp
    then show ?thesis by (simp add: assembleHash_def)
  qed
  have L: "Encode img wb = Option.bind (build (replicate (w * h * 4) 0))
             (\<lambda>s. assembleHash w h (wb\<lparr>wb_rgba := s @ drop (w * h * 4) (wb_rgba wb)\<rparr>))"
    unfolding Encode_def Let_def srcW_def [symmetric] srcH_def [symmetric]
    using pos n2
    by (simp add: td n sl z w_def [symmetric] h_def [symmetric] build_def)
  have R: "EncodeFresh img = Option.bind (build (replicate (w * h * 4) 0))
             (\<lambda>s. Option.bind (transformFresh w h s) (packHash w h))"
    unfolding EncodeFresh_def Let_def srcW_def [symmetric] srcH_def [symmetric]
    using pos n2
    by (simp add: td n w_def [symmetric] h_def [symmetric] build_def)
  show ?thesis
    unfolding L R
    by (cases "build (replicate (w * h * 4) 0)") (simp_all add: asm)
qed

text \<open>
  C10. \<^verbatim>\<open>Encode\<close> is a function of the image alone: two runs on the same image, on any
  two work buffers (with the array sizes of \<^verbatim>\<open>workBuf\<close> and arbitrary contents of the
  proxy region, the cosine tables and the AC array), return the same hash, and panic
  alike where the proxy builder reads outside the pixel data. Each run equals
  \<open>EncodeFresh\<close>, which reads no work buffer: the proxy region is zeroed by \<^verbatim>\<open>zeroF32\<close>,
  the cosine tables and AC slices are written before they are read.
\<close>

theorem Encode_deterministic:
  assumes "workBuf_ok wb" "workBuf_ok wb'"
  shows "Encode img wb = Encode img wb'"
  using Encode_fresh [OF assms(1), of img] Encode_fresh [OF assms(2), of img] by simp

section \<open>Header words\<close>

lemma bytes_roundtrip:
  fixes H :: "32 word"
  shows "ucast (ucast H :: 8 word) OR push_bit 8 (ucast (ucast (drop_bit 8 H) :: 8 word))
         OR push_bit 16 (ucast (ucast (drop_bit 16 H) :: 8 word))
         OR push_bit 24 (ucast (ucast (drop_bit 24 H) :: 8 word)) = H" (is "?L = H")
proof (rule bit_word_eqI)
  fix n :: nat
  assume n: "n < LENGTH(32)"
  consider "n < 8" | "8 \<le> n" "n < 16" | "16 \<le> n" "n < 24" | "24 \<le> n" "n < 32"
    using n by fastforce
  then show "bit ?L n = bit H n"
    by cases (auto simp: bit_simps)
qed

lemma small_bits: "(a :: 32 word) < 2 ^ n \<Longrightarrow> n \<le> k \<Longrightarrow> \<not> bit a k"
proof -
  assume a: "a < 2 ^ n" and k: "n \<le> k"
  have "a AND mask n = a" using a by (rule less_mask_eq)
  then have "bit a k = bit (a AND mask n) k" by simp
  then show ?thesis using k by (simp add: bit_simps)
qed

lemma word_of_int_small:
  assumes "0 \<le> v" "v < 2 ^ n" "n < 32"
  shows "(word_of_int v :: 32 word) < 2 ^ n"
proof -
  have "(2 :: int) ^ n < 2 ^ 32" by (rule power_strict_increasing) (use assms(3) in simp_all)
  then have "v < 2 ^ 32" using assms(2) by simp
  then have "uint (word_of_int v :: 32 word) = v"
    using assms(1) by (simp add: uint_word_of_int_eq take_bit_int_eq_self)
  then show ?thesis
    using assms(2,3) by (simp add: word_2p_lem word_size)
qed

lemma header_fields:
  fixes a b c d e f g :: "32 word"
  assumes "a < 2 ^ 6" "b < 2 ^ 6" "c < 2 ^ 6" "d < 2 ^ 5" "e < 2 ^ 1" "f < 2 ^ 4" "g < 2 ^ 1"
  defines "H \<equiv> a OR push_bit 6 b OR push_bit 12 c OR push_bit 18 d OR push_bit 23 e
               OR push_bit 24 f OR push_bit 28 g"
  shows "signed_drop_bit 23 H AND 1 = e" "signed_drop_bit 24 H AND 0xf = f"
    "signed_drop_bit 28 H AND 1 = g"
proof -
  note s = small_bits [OF assms(1)] small_bits [OF assms(2)] small_bits [OF assms(3)]
    small_bits [OF assms(4)] small_bits [OF assms(5)] small_bits [OF assms(6)]
    small_bits [OF assms(7)]
  have m1: "(1 :: 32 word) = mask 1" by simp
  have m4: "(0xf :: 32 word) = mask 4" by (simp add: mask_eq_exp_minus_1)
  show "signed_drop_bit 23 H AND 1 = e"
    unfolding H_def m1
    apply (rule bit_word_eqI)
    subgoal for n
      apply (cases "n = 0")
       apply (auto simp: bit_simps s)
      done
    done
  show "signed_drop_bit 24 H AND 0xf = f"
    unfolding H_def m4
    apply (rule bit_word_eqI)
    subgoal for n
      apply (cases "n < 4")
       apply (auto simp: bit_simps s)
      done
    done
  show "signed_drop_bit 28 H AND 1 = g"
    unfolding H_def m1
    apply (rule bit_word_eqI)
    subgoal for n
      apply (cases "n = 0")
       apply (auto simp: bit_simps s)
      done
    done
qed

section \<open>The decoder on the output of the encoder\<close>

lemma readAC_loop_shape:
  "length (fst (readAC_loop hash off count res ofs)) = length res + count
   \<and> snd (readAC_loop hash off count res ofs) = ofs + count"
  by (induction count arbitrary: res ofs) (simp_all add: Let_def)

lemma readAC_shape:
  "length (fst (readAC hash off count ofs)) = count" "snd (readAC hash off count ofs) = ofs + count"
  using readAC_loop_shape [of hash off count "[]" ofs] by (simp_all add: readAC_def)

lemma dec_counts:
  "length (dec_lAC hash) = dec_lx hash * dec_ly hash - 1"
  "length (dec_pAC hash) = 8"
  "length (dec_qAC hash) = 8"
  "length (dec_aAC hash) = (if dec_hasAlpha hash then dec_lx hash * dec_ly hash - 1 else 0)"
  "nibblesRead hash = (dec_lx hash * dec_ly hash - 1) + 8 + 8
                      + (if dec_hasAlpha hash then dec_lx hash * dec_ly hash - 1 else 0)"
  by (simp_all add: dec_lAC_def dec_pAC_def dec_qAC_def dec_aAC_def nibblesRead_def dec_lRead_def
      dec_pRead_def dec_qRead_def dec_aRead_def readAC_shape)

lemma headerWord_enc:
  assumes "take off hash = headerBytes w h e"
  shows "headerWord hash = encHeader w h e"
proof -
  have "6 \<le> length (take off hash)" by (simp add: assms headerBytes_def)
  then have l: "6 \<le> length hash" "6 \<le> off" by simp_all
  have nth: "hash ! i = headerBytes w h e ! i" if "i < 6" for i
  proof -
    have "take off hash ! i = hash ! i" using that l by simp
    then show ?thesis by (simp add: assms)
  qed
  have b: "hashByte hash 0 = ucast (ucast (encHeader w h e) :: byte)"
    "hashByte hash 1 = ucast (ucast (drop_bit 8 (encHeader w h e)) :: byte)"
    "hashByte hash 2 = ucast (ucast (drop_bit 16 (encHeader w h e)) :: byte)"
    "hashByte hash 3 = ucast (ucast (drop_bit 24 (encHeader w h e)) :: byte)"
    using l nth [of 0] nth [of 1] nth [of 2] nth [of 3]
    by (auto simp: hashByte_def headerBytes_def)
  show ?thesis
    unfolding headerWord_def b by (rule bytes_roundtrip)
qed

lemma field_small:
  assumes "0 \<le> x" "x \<le> real k" "int k < 2 ^ n" "n < 32"
  shows "toU32 (goRound x) < 2 ^ n"
proof -
  have "0 \<le> goRound x \<and> goRound x \<le> int k"
    using goRound_range [of 0 x "int k"] assms(1,2) by simp
  then have "0 \<le> goRound x" "goRound x < 2 ^ n" using assms(3) by linarith+
  then show ?thesis unfolding toU32_def using assms(4) by (rule word_of_int_small)
qed

lemma of_nat_small:
  assumes "f \<le> 7"
  shows "(of_nat f :: 32 word) < 2 ^ 4"
proof -
  have "(of_nat f :: 32 word) = word_of_int (int f)" by simp
  moreover have "(word_of_int (int f) :: 32 word) < 2 ^ 4"
    by (rule word_of_int_small) (use assms in simp_all)
  ultimately show ?thesis by simp
qed

lemma boolU32_small: "boolU32 b < 2 ^ 1"
  by (simp add: boolU32_def)

lemma enc_header_fields:
  assumes r: "channelsRange e" and f: "(if h < w then e_ly e else e_lx e) \<le> 7"
  shows "signed_drop_bit 23 (encHeader w h e) AND 1 = boolU32 (e_hasAlpha e)"
    "signed_drop_bit 24 (encHeader w h e) AND 0xf = of_nat (if h < w then e_ly e else e_lx e)"
    "signed_drop_bit 28 (encHeader w h e) AND 1 = boolU32 (h < w)"
proof -
  have a: "toU32 (goRound (e_lDC e * 63)) < 2 ^ 6"
    by (rule field_small [where k = 63]) (use r in \<open>simp_all add: channelsRange_def\<close>)
  have b: "toU32 (goRound (e_pDC e * 31 + 31)) < 2 ^ 6"
    by (rule field_small [where k = 62]) (use r in \<open>simp_all add: channelsRange_def abs_le_iff\<close>)
  have c: "toU32 (goRound (e_qDC e * 31 + 31)) < 2 ^ 6"
    by (rule field_small [where k = 62]) (use r in \<open>simp_all add: channelsRange_def abs_le_iff\<close>)
  have d: "toU32 (goRound (e_lScale e * 31)) < 2 ^ 5"
    by (rule field_small [where k = 31]) (use r in \<open>simp_all add: channelsRange_def\<close>)
  note hf = header_fields [OF a b c d boolU32_small of_nat_small [OF f] boolU32_small,
      of "e_hasAlpha e" "h < w"]
  have H: "encHeader w h e = toU32 (goRound (e_lDC e * 63))
      OR push_bit 6 (toU32 (goRound (e_pDC e * 31 + 31)))
      OR push_bit 12 (toU32 (goRound (e_qDC e * 31 + 31)))
      OR push_bit 18 (toU32 (goRound (e_lScale e * 31)))
      OR push_bit 23 (boolU32 (e_hasAlpha e))
      OR push_bit 24 (of_nat (if h < w then e_ly e else e_lx e))
      OR push_bit 28 (boolU32 (h < w))"
    by (cases "h < w") (simp_all add: encHeader_def Let_def or.assoc)
  show "signed_drop_bit 23 (encHeader w h e) AND 1 = boolU32 (e_hasAlpha e)"
    unfolding H by (rule hf(1))
  show "signed_drop_bit 24 (encHeader w h e) AND 0xf = of_nat (if h < w then e_ly e else e_lx e)"
    unfolding H by (rule hf(2))
  show "signed_drop_bit 28 (encHeader w h e) AND 1 = boolU32 (h < w)"
    unfolding H by (rule hf(3))
qed

lemma goRound_of_nat: "goRound (real n) = int n"
proof -
  have "\<lfloor>real n + 1 / 2\<rfloor> = int n" by (simp add: floor_eq_iff)
  then show ?thesis by (simp add: goRound_def)
qed

lemma basisDim_self: "0 < d \<Longrightarrow> 0 < L \<Longrightarrow> basisDim L d d = L"
  using goRound_of_nat [of L] by (simp add: basisDim_def roundF_def max1_def)

lemma dec_of_enc:
  assumes hd: "take off hash = headerBytes w h e" and r: "channelsRange e"
    and sh: "channelsShape a (basisDims w h a) e" and w: "0 < w" and h: "0 < h"
  shows "dec_hasAlpha hash = a \<and> dec_lx hash = e_lx e \<and> dec_ly hash = e_ly e"
proof -
  let ?L = "if a then 5 else 7 :: nat"
  have ok: "dimsOK a (basisDims w h a)" using w h by (rule basisDims_ok)
  have e: "e_hasAlpha e = a" "e_lx e = basisDim ?L w (imax w h)"
    "e_ly e = basisDim ?L h (imax w h)"
    using sh by (auto simp: channelsShape_def basisDims_def Let_def)
  have rng: "1 \<le> e_lx e" "e_lx e \<le> 7" "1 \<le> e_ly e" "e_ly e \<le> 7"
    using sh ok by (auto simp: channelsShape_def dimsOK_def split: prod.splits if_splits)
  then have f: "(if h < w then e_ly e else e_lx e) \<le> 7" by simp
  note hf = enc_header_fields [OF r f]
  have hw: "headerWord hash = encHeader w h e" using hd by (rule headerWord_enc)
  have A: "dec_hasAlpha hash = a"
    by (simp add: dec_hasAlpha_def hw hf(1) boolU32_def e)
  have B: "dec_isLandscape hash = (h < w)"
    by (simp add: dec_isLandscape_def hw hf(3) boolU32_def)
  have "unat (of_nat (if h < w then e_ly e else e_lx e) :: 32 word)
        = (if h < w then e_ly e else e_lx e)"
    using f by (simp add: unat_of_nat)
  then have C: "dec_dimFlag hash = (if h < w then e_ly e else e_lx e)"
    by (simp add: dec_dimFlag_def hw hf(2))
  have D: "dec_lLimit hash = ?L" by (simp add: dec_lLimit_def A)
  show ?thesis
  proof (cases "h < w")
    case True
    then have "imax w h = w" by (simp add: imax_def)
    then have "e_lx e = ?L" using e(2) w by (simp add: basisDim_self)
    then show ?thesis using True A B C D rng by (simp add: dec_lx_def dec_ly_def)
  next
    case False
    then have "imax w h = h" by (simp add: imax_def)
    then have "e_ly e = ?L" using e(3) h by (simp add: basisDim_self)
    then show ?thesis using False A B C D rng by (simp add: dec_lx_def dec_ly_def)
  qed
qed

lemma encode_decode_basis:
  assumes w: "0 < w" "w \<le> 100" and h: "0 < h" "h \<le> 100" and ok: "workBuf_ok wb"
    and p: "proxy01 (w * h) (take (w * h * 4) (wb_rgba wb))"
    and avg: "avgAlpha (w * h) (take (w * h * 4) (wb_rgba wb)) = Some avgA"
  shows "\<exists>e hash. transform w h wb = Some e \<and> packHash w h e = Some hash
           \<and> assembleHash w h wb = Some hash
           \<and> channelsShape (avgA < 1) (basisDims w h (avgA < 1)) e \<and> channelsRange e
           \<and> length hash = hashLen (avgA < 1) (basisDims w h (avgA < 1))
           \<and> dec_hasAlpha hash = (avgA < 1) \<and> dec_lx hash = e_lx e \<and> dec_ly hash = e_ly e"
proof -
  let ?rgba = "take (w * h * 4) (wb_rgba wb)"
  have len: "length ?rgba = w * h * 4" using p by (simp add: proxy01_def)
  from transformFresh_total [OF w(1) h(1) len] avg p
  obtain e where t: "transformFresh w h ?rgba = Some e"
    and sh: "channelsShape (avgA < 1) (basisDims w h (avgA < 1)) e" and r: "channelsRange e"
    by auto
  have tr: "transform w h wb = Some e" using transform_fresh [OF w h ok] t by simp
  from packHash_total [OF sh, of w h]
  obtain hash where pk: "packHash w h e = Some hash"
    and l: "length hash = hashLen (avgA < 1) (basisDims w h (avgA < 1))"
    and hd: "take (if avgA < 1 then 8 else 6) hash = headerBytes w h e"
    by blast
  have "assembleHash w h wb = Some hash" by (simp add: assembleHash_def tr pk)
  then show ?thesis
    using tr pk sh r l dec_of_enc [OF hd r sh w(1) h(1)] by blast
qed

section \<open>Runs on concrete images\<close>

lemma ex_img1x1:
  "exNRGBA \<lparr>Pix = [255, 0, 0, 255], Stride = 4, Rect = \<lparr>minX = 0, minY = 0, maxX = 1, maxY = 1\<rparr>\<rparr>
     \<lparr>minX = 0, minY = 0, maxX = 1, maxY = 1\<rparr> 1 1 [0, 0, 0, 0] = Some [1, 0, 0, 1]"
  by (simp add: exNRGBA_def forUpto_def rdI_def store4_def wr_def f32_def)

lemma ex_img2x1:
  "exNRGBA \<lparr>Pix = [255, 0, 0, 255, 0, 0, 255, 255], Stride = 8,
            Rect = \<lparr>minX = 0, minY = 0, maxX = 2, maxY = 1\<rparr>\<rparr>
     \<lparr>minX = 0, minY = 0, maxX = 2, maxY = 1\<rparr> 2 1 [0, 0, 0, 0, 0, 0, 0, 0]
   = Some [1, 0, 0, 1, 0, 0, 1, 1]"
  by (simp add: exNRGBA_def forUpto_def rdI_def store4_def wr_def f32_def upt_rec)

lemma ex_imgAlpha2x1:
  "exNRGBA \<lparr>Pix = [255, 255, 255, 255, 0, 0, 0, 0], Stride = 8,
            Rect = \<lparr>minX = 0, minY = 0, maxX = 2, maxY = 1\<rparr>\<rparr>
     \<lparr>minX = 0, minY = 0, maxX = 2, maxY = 1\<rparr> 2 1 [0, 0, 0, 0, 0, 0, 0, 0]
   = Some [1, 1, 1, 1, 0, 0, 0, 0]"
  by (simp add: exNRGBA_def forUpto_def rdI_def store4_def wr_def f32_def upt_rec)

lemma rep4: "replicate 4 (0 :: real) = [0, 0, 0, 0]"
  by (simp add: numeral_eq_Suc)

lemma rep8: "replicate 8 (0 :: real) = [0, 0, 0, 0, 0, 0, 0, 0]"
  by (simp add: numeral_eq_Suc)

lemma Encode_img1x1: "Encode img1x1 wbZero = assembleHash 1 1 (proxyBuf [1, 0, 0, 1])"
  using ex_img1x1
  by (simp add: Encode_def img1x1_def wbZero_def proxyBuf_def thumbDims_def maxThumbDim_def
      slice_def zeroF32_eq rep4 Let_def)

lemma Encode_img2x1:
  "Encode img2x1 wbZero = assembleHash 2 1 (proxyBuf [1, 0, 0, 1, 0, 0, 1, 1])"
  using ex_img2x1
  by (simp add: Encode_def img2x1_def wbZero_def proxyBuf_def thumbDims_def maxThumbDim_def
      slice_def zeroF32_eq rep8 Let_def)

lemma Encode_imgAlpha2x1:
  "Encode imgAlpha2x1 wbZero
   = assembleHash 2 1 (proxyBuf [1, 1, 1, 1, 0, 0, 0, 0])"
  using ex_imgAlpha2x1
  by (simp add: Encode_def imgAlpha2x1_def wbZero_def proxyBuf_def thumbDims_def maxThumbDim_def
      slice_def zeroF32_eq rep8 Let_def)

lemma proxyBuf_ok: "length rgba \<le> 40000 \<Longrightarrow> workBuf_ok (proxyBuf rgba)"
  by (simp add: proxyBuf_def wbZero_def workBuf_ok_def)

lemma workBuf_ok_wbZero: "workBuf_ok wbZero"
  by (simp add: wbZero_def workBuf_ok_def)

lemma proxyBuf_take: "n = length rgba \<Longrightarrow> take n (wb_rgba (proxyBuf rgba)) = rgba"
  by (simp add: proxyBuf_def)

lemma proxy01_set:
  "proxy01 count rgba \<longleftrightarrow> length rgba = count * 4 \<and> (\<forall>x \<in> set rgba. 0 \<le> x \<and> x \<le> 1)"
  by (auto simp: proxy01_def all_set_conv_all_nth)

lemma rnd32_small: "rnd32 1 = 1" "rnd32 2 = 2"
  using rnd32_nat [of 1] rnd32_nat [of 2] by simp_all

lemma avgAlpha_1: "avgAlpha 1 [r, g, b, 1] = Some 1"
  by (simp add: avgAlpha_def forUpto_def rd_def rnd32_small)

lemma avgAlpha_2: "avgAlpha 2 [r, g, b, 1, r', g', b', 1] = Some 1"
  by (simp add: avgAlpha_def forUpto_def rd_def upt_rec rnd32_small)

lemma avgAlpha_2_half: "avgAlpha 2 [r, g, b, 1, r', g', b', 0] = Some (1 / 2)"
  by (simp add: avgAlpha_def forUpto_def rd_def upt_rec rnd32_small rnd32_half)

lemma basisDims_1_1: "basisDims 1 1 False = (7, 7, 3, 3, 0, 0)"
  by (simp add: basisDims_def imax_def basisDim_def roundF_def goRound_def max1_def)

lemma basisDims_2_1: "basisDims 2 1 False = (7, 4, 3, 2, 0, 0)"
  by (simp add: basisDims_def imax_def basisDim_def roundF_def goRound_def max1_def)

lemma basisDims_2_1_alpha: "basisDims 2 1 True = (5, 3, 3, 2, 5, 3)"
  by (simp add: basisDims_def imax_def basisDim_def roundF_def goRound_def max1_def)

lemma encode_1x1:
  "\<exists>hash. Encode img1x1 wbZero = Some hash \<and> length hash = 38"
proof -
  let ?p = "[1, 0, 0, 1 :: real]"
  have t: "take (1 * 1 * 4) (wb_rgba (proxyBuf ?p)) = ?p" by (rule proxyBuf_take) simp
  have p: "proxy01 (1 * 1) (take (1 * 1 * 4) (wb_rgba (proxyBuf ?p)))"
    unfolding t by (simp add: proxy01_set)
  have a: "avgAlpha (1 * 1) (take (1 * 1 * 4) (wb_rgba (proxyBuf ?p))) = Some 1"
    unfolding t using avgAlpha_1 [of 1 0 0] by simp
  have ok: "workBuf_ok (proxyBuf ?p)" by (rule proxyBuf_ok) simp
  from encode_decode_basis [OF _ _ _ _ ok p a]
  obtain hash where "assembleHash 1 1 (proxyBuf ?p) = Some hash"
    "length hash = hashLen False (basisDims 1 1 False)"
    by auto
  then show ?thesis
    using basisDims_1_1 by (simp add: Encode_img1x1 hashLen_def totalAC_def)
qed

lemma encode_2x1:
  "\<exists>e hash. transform 2 1 (proxyBuf [1, 0, 0, 1, 0, 0, 1, 1]) = Some e
     \<and> Encode img2x1 wbZero = Some hash
     \<and> length (e_lAC e) = 27 \<and> length (e_pAC e) = 5 \<and> length (e_qAC e) = 5
     \<and> length (dec_lAC hash) = 27 \<and> length (dec_pAC hash) = 8 \<and> length (dec_qAC hash) = 8
     \<and> nibblesRead hash = 43 \<and> length hash = 25"
proof -
  let ?p = "[1, 0, 0, 1, 0, 0, 1, 1 :: real]"
  have t: "take (2 * 1 * 4) (wb_rgba (proxyBuf ?p)) = ?p" by (rule proxyBuf_take) simp
  have p: "proxy01 (2 * 1) (take (2 * 1 * 4) (wb_rgba (proxyBuf ?p)))"
    unfolding t by (simp add: proxy01_set)
  have a: "avgAlpha (2 * 1) (take (2 * 1 * 4) (wb_rgba (proxyBuf ?p))) = Some 1"
    unfolding t using avgAlpha_2 [of 1 0 0 0 0 1] by simp
  have ok: "workBuf_ok (proxyBuf ?p)" by (rule proxyBuf_ok) simp
  from encode_decode_basis [OF _ _ _ _ ok p a]
  obtain e hash where e: "transform 2 1 (proxyBuf ?p) = Some e"
    and h: "assembleHash 2 1 (proxyBuf ?p) = Some hash"
    and sh: "channelsShape False (basisDims 2 1 False) e"
    and l: "length hash = hashLen False (basisDims 2 1 False)"
    and d: "dec_hasAlpha hash = False" "dec_lx hash = e_lx e" "dec_ly hash = e_ly e"
    by auto
  have s: "e_lx e = 7" "e_ly e = 4" "length (e_lAC e) = 27" "length (e_pAC e) = 5"
    "length (e_qAC e) = 5"
    using sh basisDims_2_1 by (auto simp: channelsShape_def)
  show ?thesis
    using e h s l d basisDims_2_1
    by (simp add: Encode_img2x1 hashLen_def totalAC_def dec_counts)
qed

lemma encode_alpha_2x1:
  "\<exists>e hash. transform 2 1 (proxyBuf [1, 1, 1, 1, 0, 0, 0, 0]) = Some e
     \<and> assembleHash 2 1 (proxyBuf [1, 1, 1, 1, 0, 0, 0, 0]) = Some hash
     \<and> Encode imgAlpha2x1 wbZero = Some hash \<and> dec_hasAlpha hash
     \<and> e_ax e = 5 \<and> e_ay e = 3 \<and> length (e_aAC e) = 14 \<and> length (dec_aAC hash) = 14"
proof -
  let ?p = "[1, 1, 1, 1, 0, 0, 0, 0 :: real]"
  have t: "take (2 * 1 * 4) (wb_rgba (proxyBuf ?p)) = ?p" by (rule proxyBuf_take) simp
  have p: "proxy01 (2 * 1) (take (2 * 1 * 4) (wb_rgba (proxyBuf ?p)))"
    unfolding t by (simp add: proxy01_set)
  have a: "avgAlpha (2 * 1) (take (2 * 1 * 4) (wb_rgba (proxyBuf ?p))) = Some (1 / 2)"
    unfolding t using avgAlpha_2_half [of 1 1 1 0 0 0] by simp
  have ok: "workBuf_ok (proxyBuf ?p)" by (rule proxyBuf_ok) simp
  from encode_decode_basis [OF _ _ _ _ ok p a]
  obtain e hash where e: "transform 2 1 (proxyBuf ?p) = Some e"
    and h: "assembleHash 2 1 (proxyBuf ?p) = Some hash"
    and sh: "channelsShape True (basisDims 2 1 True) e"
    and d: "dec_hasAlpha hash = True" "dec_lx hash = e_lx e" "dec_ly hash = e_ly e"
    by auto
  have s: "e_lx e = 5" "e_ly e = 3" "e_ax e = 5" "e_ay e = 3" "length (e_aAC e) = 14"
    using sh basisDims_2_1_alpha by (auto simp: channelsShape_def)
  show ?thesis
    using e h s d by (simp add: Encode_imgAlpha2x1 dec_counts)
qed

lemma acNibble_range: "unat (acNibble c) \<le> 15"
proof -
  let ?x = "clamp01f (rnd32 (rnd32 (c / 2) + 0.5)) * 15"
  have "0 \<le> ?x" "?x \<le> 15" by (simp_all add: clamp01f_def)
  then have g: "0 \<le> goRound ?x \<and> goRound ?x \<le> 15"
    using goRound_range [of 0 ?x 15] by simp
  then have "unat (word_of_int (goRound ?x) :: byte) = nat (goRound ?x)"
    by (simp add: unat_eq_nat_uint uint_word_of_int_eq take_bit_int_eq_self)
  then have "unat (acNibble c) = nat (goRound ?x)" by (simp add: acNibble_def toByte_def)
  then show ?thesis using g by linarith
qed

lemma basisDim_5:
  assumes "0 < m" "d \<le> m" "9 * m \<le> 10 * d"
  shows "basisDim 5 d m = 5"
proof -
  let ?x = "real (5 * d) / real m"
  have "9 * real m \<le> 10 * real d" using assms(3) by (metis of_nat_le_iff of_nat_mult of_nat_numeral)
  then have "9 / 2 \<le> ?x" using assms(1) by (simp add: le_divide_eq)
  then have "5 \<le> ?x + 1 / 2" "0 \<le> ?x" by simp_all
  then have "5 \<le> goRound ?x" by (simp add: goRound_def le_floor_iff)
  then have "5 \<le> basisDim 5 d m" by (simp add: basisDim_def roundF_def max1_def)
  moreover have "basisDim 5 d m \<le> 5" using basisDim_range [OF assms(1,2), of 5] by simp
  ultimately show ?thesis by simp
qed

section \<open>Field widths, hash length and basis dimensions\<close>

text \<open>
  C1, at the \<open>2 \<times> 1\<close> opaque image \<open>img2x1\<close>. The encoder chooses \<open>lx, ly, px, py = 7, 4, 3, 2\<close>
  and packs \<open>27 + 5 + 5 = 37\<close> nibbles into a hash of 25 bytes, 19 of them for nibbles.
  The decoder reads 27 luma nibbles, then \<open>3 * 3 - 1 = 8\<close> nibbles for each of P and Q
  where the encoder packed \<open>px * py - 1 = 5\<close>: 43 nibbles, the last of them at byte
  \<open>6 + 42 div 2 = 27\<close>, past the end of the hash.
\<close>

theorem decoder_reads_past_packed_nibbles:
  "Encode img2x1 wbZero = assembleHash 2 1 (proxyBuf [1, 0, 0, 1, 0, 0, 1, 1])
   \<and> map_option (length \<circ> e_lAC) (transform 2 1 (proxyBuf [1, 0, 0, 1, 0, 0, 1, 1])) = Some 27
   \<and> map_option (length \<circ> e_pAC) (transform 2 1 (proxyBuf [1, 0, 0, 1, 0, 0, 1, 1])) = Some 5
   \<and> map_option (length \<circ> e_qAC) (transform 2 1 (proxyBuf [1, 0, 0, 1, 0, 0, 1, 1])) = Some 5
   \<and> map_option (length \<circ> dec_lAC) (Encode img2x1 wbZero) = Some 27
   \<and> map_option (length \<circ> dec_pAC) (Encode img2x1 wbZero) = Some 8
   \<and> map_option (length \<circ> dec_qAC) (Encode img2x1 wbZero) = Some 8
   \<and> map_option nibblesRead (Encode img2x1 wbZero) = Some 43
   \<and> map_option length (Encode img2x1 wbZero) = Some 25"
  using encode_2x1 by (auto simp: Encode_img2x1)

text \<open>
  C2, at the \<open>1 \<times> 1\<close> opaque image \<open>img1x1\<close>. The basis dimensions are \<open>7, 7, 3, 3\<close>, so
  \<^verbatim>\<open>Encode\<close> returns \<open>6 + (48 + 8 + 8 + 1) div 2 = 38\<close> bytes, more than 35.
\<close>

theorem hash_length_outside_20_35:
  "map_option length (Encode img1x1 wbZero) = Some 38"
  using encode_1x1 by auto

text \<open>
  C4 as stated fails at the \<open>2 \<times> 1\<close> image \<open>imgAlpha2x1\<close>, an opaque and a transparent
  pixel: the hash has the \<^verbatim>\<open>hasAlpha\<close> bit set, the encoder emits \<open>5 * 3 - 1 = 14\<close> alpha
  coefficients and the decoder reads 14 alpha nibbles, not 24.
\<close>

theorem alpha_basis_not_5x5_counterexample:
  "Encode imgAlpha2x1 wbZero = assembleHash 2 1 (proxyBuf [1, 1, 1, 1, 0, 0, 0, 0])
   \<and> map_option (length \<circ> e_aAC) (transform 2 1 (proxyBuf [1, 1, 1, 1, 0, 0, 0, 0])) = Some 14
   \<and> map_option dec_hasAlpha (Encode imgAlpha2x1 wbZero) = Some True
   \<and> map_option (length \<circ> dec_aAC) (Encode imgAlpha2x1 wbZero) = Some 14"
  using encode_alpha_2x1 by (auto simp: Encode_imgAlpha2x1)

text \<open>
  C4 (as amended). For every hash that \<^verbatim>\<open>assembleHash\<close> makes of a proxy in \<open>[0, 1]\<close> and that
  has the \<^verbatim>\<open>hasAlpha\<close> bit set, the alpha basis is \<open>ax \<times> ay\<close> on both sides, with
  \<open>ax = max1 (round (5 * w / max w h))\<close> and \<open>ay = max1 (round (5 * h / max w h))\<close>: the
  encoder emits \<open>ax * ay - 1\<close> alpha coefficients and the decoder, whose \<open>lx\<close> and \<open>ly\<close> are
  \<open>ax\<close> and \<open>ay\<close>, reads as many alpha nibbles. The basis is \<open>5 \<times> 5\<close>, with 24
  coefficients, when the shorter side of the proxy is at least nine tenths of the
  longer one. Where in the nibble stream the decoder reads them is not part of the
  statement.
\<close>

theorem alpha_basis_follows_aspect:
  assumes w: "0 < w" "w \<le> 100" and h: "0 < h" "h \<le> 100" and ok: "workBuf_ok wb"
    and p: "proxy01 (w * h) (take (w * h * 4) (wb_rgba wb))"
    and hs: "assembleHash w h wb = Some hash" and a: "dec_hasAlpha hash"
  shows "\<exists>e. transform w h wb = Some e \<and> packHash w h e = Some hash \<and> e_hasAlpha e
           \<and> e_ax e = basisDim 5 w (imax w h) \<and> e_ay e = basisDim 5 h (imax w h)
           \<and> length (e_aAC e) = e_ax e * e_ay e - 1
           \<and> dec_lx hash = e_ax e \<and> dec_ly hash = e_ay e
           \<and> length (dec_aAC hash) = length (e_aAC e)
           \<and> (9 * w \<le> 10 * h \<and> 9 * h \<le> 10 * w \<longrightarrow> length (e_aAC e) = 24)"
proof -
  have len: "length (take (w * h * 4) (wb_rgba wb)) = w * h * 4"
    using p by (simp add: proxy01_def)
  obtain avgA where avg: "avgAlpha (w * h) (take (w * h * 4) (wb_rgba wb)) = Some avgA"
    using avgAlpha_total [OF len] by blast
  from encode_decode_basis [OF w h ok p avg] hs
  obtain e where e: "transform w h wb = Some e" and pk: "packHash w h e = Some hash"
    and sh: "channelsShape (avgA < 1) (basisDims w h (avgA < 1)) e"
    and d: "dec_hasAlpha hash = (avgA < 1)" "dec_lx hash = e_lx e" "dec_ly hash = e_ly e"
    by auto
  have al: "avgA < 1" using a d(1) by simp
  have s: "e_hasAlpha e" "e_lx e = basisDim 5 w (imax w h)" "e_ly e = basisDim 5 h (imax w h)"
    "e_ax e = basisDim 5 w (imax w h)" "e_ay e = basisDim 5 h (imax w h)"
    "length (e_aAC e) = e_ax e * e_ay e - 1"
    using sh al by (auto simp: channelsShape_def basisDims_def Let_def)
  have m: "0 < imax w h" "w \<le> imax w h" "h \<le> imax w h"
    using w(1) by (simp_all add: imax_nat)
  have sq: "length (e_aAC e) = 24" if "9 * w \<le> 10 * h" "9 * h \<le> 10 * w"
  proof -
    have "9 * imax w h \<le> 10 * w" "9 * imax w h \<le> 10 * h"
      using that by (simp_all add: imax_def)
    then have "e_ax e = 5" "e_ay e = 5"
      using basisDim_5 [OF m(1) m(2)] basisDim_5 [OF m(1) m(3)] s by simp_all
    then show ?thesis using s(6) by simp
  qed
  show ?thesis
    using e pk a d s sq by (simp add: dec_counts)
qed

theorem alpha_basis_follows_aspect_witness:
  "workBuf_ok (proxyBuf [1, 1, 1, 1, 0, 0, 0, 0])
   \<and> proxy01 (2 * 1) (take (2 * 1 * 4) (wb_rgba (proxyBuf [1, 1, 1, 1, 0, 0, 0, 0])))
   \<and> (\<exists>e hash. assembleHash 2 1 (proxyBuf [1, 1, 1, 1, 0, 0, 0, 0]) = Some hash
         \<and> dec_hasAlpha hash \<and> transform 2 1 (proxyBuf [1, 1, 1, 1, 0, 0, 0, 0]) = Some e
         \<and> e_ax e = 5 \<and> e_ay e = 3
         \<and> length (e_aAC e) = 14 \<and> length (dec_aAC hash) = 14)"
proof -
  let ?p = "[1, 1, 1, 1, 0, 0, 0, 0 :: real]"
  have t: "take (2 * 1 * 4) (wb_rgba (proxyBuf ?p)) = ?p" by (rule proxyBuf_take) simp
  have p: "proxy01 (2 * 1) (take (2 * 1 * 4) (wb_rgba (proxyBuf ?p)))"
    unfolding t by (simp add: proxy01_set)
  have ok: "workBuf_ok (proxyBuf ?p)" by (rule proxyBuf_ok) simp
  obtain hash where hs: "assembleHash 2 1 (proxyBuf ?p) = Some hash" and a: "dec_hasAlpha hash"
    using encode_alpha_2x1 by blast
  have b: "basisDim 5 2 (imax 2 1) = 5" "basisDim 5 1 (imax 2 1) = 3"
    using basisDims_2_1_alpha by (simp_all add: basisDims_def Let_def)
  from alpha_basis_follows_aspect [OF _ _ _ _ ok p hs a]
  obtain e where "transform 2 1 (proxyBuf ?p) = Some e"
    "e_ax e = basisDim 5 2 (imax 2 1)" "e_ay e = basisDim 5 1 (imax 2 1)"
    "length (e_aAC e) = e_ax e * e_ay e - 1" "length (dec_aAC hash) = length (e_aAC e)"
    by auto
  then have "\<exists>e hash. assembleHash 2 1 (proxyBuf ?p) = Some hash
         \<and> dec_hasAlpha hash \<and> transform 2 1 (proxyBuf ?p) = Some e
         \<and> e_ax e = 5 \<and> e_ay e = 3
         \<and> length (e_aAC e) = 14 \<and> length (dec_aAC hash) = 14"
    using hs a b by auto
  then show ?thesis using ok p by blast
qed

text \<open>
  C8. For every proxy whose RGBA floats lie in \<open>[0, 1]\<close>, \<^verbatim>\<open>assembleHash\<close> reaches the bit
  packer, and every quantised field it packs fits its bit width: \<open>round (lDC * 63)\<close> is
  in \<open>[0, 63]\<close>, \<open>round (pDC * 31 + 31)\<close> and \<open>round (qDC * 31 + 31)\<close> in \<open>[0, 62]\<close>,
  \<open>round (lScale * 31)\<close> in \<open>[0, 31]\<close>, \<open>round (pScale * 63)\<close> and \<open>round (qScale * 63)\<close>
  in \<open>[0, 63]\<close>, \<open>round (aDC * 15)\<close> and \<open>round (aScale * 15)\<close> in \<open>[0, 15]\<close>, the
  dimension flag in \<open>[1, 7]\<close> and every AC nibble in \<open>[0, 15]\<close>.
\<close>

theorem quantized_fields_fit:
  assumes w: "0 < w" "w \<le> 100" and h: "0 < h" "h \<le> 100" and ok: "workBuf_ok wb"
    and p: "proxy01 (w * h) (take (w * h * 4) (wb_rgba wb))"
  shows "\<exists>e. transform w h wb = Some e \<and> assembleHash w h wb = packHash w h e
           \<and> 0 \<le> goRound (e_lDC e * 63) \<and> goRound (e_lDC e * 63) \<le> 63
           \<and> 0 \<le> goRound (e_pDC e * 31 + 31) \<and> goRound (e_pDC e * 31 + 31) \<le> 62
           \<and> 0 \<le> goRound (e_qDC e * 31 + 31) \<and> goRound (e_qDC e * 31 + 31) \<le> 62
           \<and> 0 \<le> goRound (e_lScale e * 31) \<and> goRound (e_lScale e * 31) \<le> 31
           \<and> 0 \<le> goRound (e_pScale e * 63) \<and> goRound (e_pScale e * 63) \<le> 63
           \<and> 0 \<le> goRound (e_qScale e * 63) \<and> goRound (e_qScale e * 63) \<le> 63
           \<and> 0 \<le> goRound (e_aDC e * 15) \<and> goRound (e_aDC e * 15) \<le> 15
           \<and> 0 \<le> goRound (e_aScale e * 15) \<and> goRound (e_aScale e * 15) \<le> 15
           \<and> 1 \<le> (if w > h then e_ly e else e_lx e) \<and> (if w > h then e_ly e else e_lx e) \<le> 7
           \<and> (\<forall>c. unat (acNibble c) \<le> 15)"
proof -
  have len: "length (take (w * h * 4) (wb_rgba wb)) = w * h * 4"
    using p by (simp add: proxy01_def)
  obtain avgA where avg: "avgAlpha (w * h) (take (w * h * 4) (wb_rgba wb)) = Some avgA"
    using avgAlpha_total [OF len] by blast
  from encode_decode_basis [OF w h ok p avg]
  obtain e where e: "transform w h wb = Some e"
    and sh: "channelsShape (avgA < 1) (basisDims w h (avgA < 1)) e" and r: "channelsRange e"
    by blast
  have r': "0 \<le> e_lDC e" "e_lDC e \<le> 1" "- 1 \<le> e_pDC e" "e_pDC e \<le> 1"
    "- 1 \<le> e_qDC e" "e_qDC e \<le> 1" "0 \<le> e_aDC e" "e_aDC e \<le> 1"
    "0 \<le> e_lScale e" "e_lScale e \<le> 1" "0 \<le> e_pScale e" "e_pScale e \<le> 1"
    "0 \<le> e_qScale e" "e_qScale e \<le> 1" "0 \<le> e_aScale e" "e_aScale e \<le> 1"
    using r by (simp_all add: channelsRange_def abs_le_iff)
  have dm: "1 \<le> e_lx e" "e_lx e \<le> 7" "1 \<le> e_ly e" "e_ly e \<le> 7"
    using sh basisDims_ok [OF w(1) h(1), of "avgA < 1"]
    by (auto simp: channelsShape_def dimsOK_def split: prod.splits if_splits)
  have f1: "0 \<le> goRound (e_lDC e * 63) \<and> goRound (e_lDC e * 63) \<le> 63"
    using goRound_range [of 0 "e_lDC e * 63" 63] r' by simp
  have f2: "0 \<le> goRound (e_pDC e * 31 + 31) \<and> goRound (e_pDC e * 31 + 31) \<le> 62"
    using goRound_range [of 0 "e_pDC e * 31 + 31" 62] r' by simp
  have f3: "0 \<le> goRound (e_qDC e * 31 + 31) \<and> goRound (e_qDC e * 31 + 31) \<le> 62"
    using goRound_range [of 0 "e_qDC e * 31 + 31" 62] r' by simp
  have f4: "0 \<le> goRound (e_lScale e * 31) \<and> goRound (e_lScale e * 31) \<le> 31"
    using goRound_range [of 0 "e_lScale e * 31" 31] r' by simp
  have f5: "0 \<le> goRound (e_pScale e * 63) \<and> goRound (e_pScale e * 63) \<le> 63"
    using goRound_range [of 0 "e_pScale e * 63" 63] r' by simp
  have f6: "0 \<le> goRound (e_qScale e * 63) \<and> goRound (e_qScale e * 63) \<le> 63"
    using goRound_range [of 0 "e_qScale e * 63" 63] r' by simp
  have f7: "0 \<le> goRound (e_aDC e * 15) \<and> goRound (e_aDC e * 15) \<le> 15"
    using goRound_range [of 0 "e_aDC e * 15" 15] r' by simp
  have f8: "0 \<le> goRound (e_aScale e * 15) \<and> goRound (e_aScale e * 15) \<le> 15"
    using goRound_range [of 0 "e_aScale e * 15" 15] r' by simp
  have f9: "1 \<le> (if w > h then e_ly e else e_lx e) \<and> (if w > h then e_ly e else e_lx e) \<le> 7"
    using dm by simp
  have f0: "assembleHash w h wb = packHash w h e" by (simp add: assembleHash_def e)
  show ?thesis
    using e f0 f1 f2 f3 f4 f5 f6 f7 f8 f9 acNibble_range by blast
qed

theorem quantized_fields_fit_witness:
  "workBuf_ok wbZero \<and> proxy01 (1 * 1) (take (1 * 1 * 4) (wb_rgba wbZero))
   \<and> (\<exists>e. transform 1 1 wbZero = Some e
        \<and> 0 \<le> goRound (e_lDC e * 63) \<and> goRound (e_lDC e * 63) \<le> 63
        \<and> 0 \<le> goRound (e_pDC e * 31 + 31) \<and> goRound (e_pDC e * 31 + 31) \<le> 62
        \<and> 0 \<le> goRound (e_lScale e * 31) \<and> goRound (e_lScale e * 31) \<le> 31
        \<and> 1 \<le> e_lx e \<and> e_lx e \<le> 7)"
proof -
  have p: "proxy01 (1 * 1) (take (1 * 1 * 4) (wb_rgba wbZero))"
    by (simp add: proxy01_set wbZero_def)
  from quantized_fields_fit [OF _ _ _ _ workBuf_ok_wbZero p]
  have "\<exists>e. transform 1 1 wbZero = Some e
        \<and> 0 \<le> goRound (e_lDC e * 63) \<and> goRound (e_lDC e * 63) \<le> 63
        \<and> 0 \<le> goRound (e_pDC e * 31 + 31) \<and> goRound (e_pDC e * 31 + 31) \<le> 62
        \<and> 0 \<le> goRound (e_lScale e * 31) \<and> goRound (e_lScale e * 31) \<le> 31
        \<and> 1 \<le> e_lx e \<and> e_lx e \<le> 7"
    by auto
  then show ?thesis using workBuf_ok_wbZero p by blast
qed

theorem Encode_deterministic_witness:
  "workBuf_ok wbZero
   \<and> workBuf_ok \<lparr>wb_rgba = replicate 40000 (1 / 2), wb_cosX = replicate 800 7,
                  wb_cosY = replicate 800 (- 3), wb_ac = replicate 128 9\<rparr>
   \<and> Encode img2x1 wbZero
     = Encode img2x1 \<lparr>wb_rgba = replicate 40000 (1 / 2), wb_cosX = replicate 800 7,
                       wb_cosY = replicate 800 (- 3), wb_ac = replicate 128 9\<rparr>"
  using Encode_deterministic [of wbZero "\<lparr>wb_rgba = replicate 40000 (1 / 2),
      wb_cosX = replicate 800 7, wb_cosY = replicate 800 (- 3), wb_ac = replicate 128 9\<rparr>" img2x1]
  by (simp add: workBuf_ok_def wbZero_def)

end
